theory Spec2Isabelle
  imports Main "HOL-Library.AList"
begin

section \<open>Data model of monitor.py\<close>

text \<open>
  A Python \<^verbatim>\<open>dict\<close> is an association list in insertion order: \<open>map_of d k\<close> is
  \<^verbatim>\<open>d.get(k)\<close>, \<open>AList.update k v d\<close> is \<^verbatim>\<open>d[k] = v\<close> (the value is replaced in place
  when the key exists and appended otherwise), \<open>AList.map_entry k f d\<close> changes the
  value stored under an existing key, and \<open>setdefault\<close> is \<^verbatim>\<open>d.setdefault(k, v)\<close>.
\<close>

definition setdefault :: "'k \<Rightarrow> 'v \<Rightarrow> ('k \<times> 'v) list \<Rightarrow> ('k \<times> 'v) list" where
  "setdefault k v d = (case map_of d k of None \<Rightarrow> d @ [(k, v)] | Some _ \<Rightarrow> d)"

text \<open>
  The ping and ssh cells of a row are the text \<^verbatim>\<open>OK\<close> with a green mark or the probe's
  message in parentheses with a red mark.
\<close>

datatype cell = Ok | Failed string

text \<open>The row dictionary built by \<^verbatim>\<open>run_checks_once\<close> for one node.\<close>

record row =
  name :: string
  ip :: string
  ping :: cell
  ssh :: cell
  last_seen :: string
  uptime :: string
  is_issue :: bool
  role :: string

text \<open>The value stored under a group name: \<^verbatim>\<open>{"rows": [...], "issues": n}\<close>.\<close>

record group_data =
  rows :: "row list"
  issues :: int

type_synonym results = "(string \<times> group_data) list"

text \<open>
  The state dictionary, with the three keys of \<^verbatim>\<open>default\<close> in \<^verbatim>\<open>load_state\<close>;
  \<^verbatim>\<open>node_state\<close> maps a key to the node's last \<^verbatim>\<open>is_issue\<close> flag. The flags are the
  Python booleans \<^verbatim>\<open>main\<close> stores (the comment in \<^verbatim>\<open>default\<close> reads "key -> is_issue
  (True/False)"), so \<^verbatim>\<open>prev is None\<close> is a missing key, and \<^verbatim>\<open>prev is False\<close> and
  \<^verbatim>\<open>prev is True\<close> are the two values of a stored flag. The two dates are the strings
  \<^verbatim>\<open>main\<close> stores: the empty string or the text of a date.
\<close>

record state =
  node_state :: "(string \<times> bool) list"
  last_daily_summary :: string
  last_daily_reminder :: string

definition DAILY_SUMMARY_HOUR :: nat where
  "DAILY_SUMMARY_HOUR = 0"

definition DAILY_REMINDER_HOUR :: nat where
  "DAILY_REMINDER_HOUR = 10"

section \<open>Transition detection (the loop of main)\<close>

definition node_key :: "string \<Rightarrow> row \<Rightarrow> string" where
  "node_key grp r = grp @ '':'' @ name r"

definition no_rows :: group_data where
  "no_rows = \<lparr>rows = [], issues = 0\<rparr>"

definition append_row :: "row \<Rightarrow> group_data \<Rightarrow> group_data" where
  "append_row r d = d\<lparr>rows := rows d @ [r]\<rparr>"

definition incr_issues :: "group_data \<Rightarrow> group_data" where
  "incr_issues d = d\<lparr>issues := issues d + 1\<rparr>"

text \<open>
  The variables of the loop: \<^verbatim>\<open>state["node_state"]\<close>, \<^verbatim>\<open>down_now\<close> and
  \<^verbatim>\<open>recovered_now\<close>.
\<close>

record detection =
  flags :: "(string \<times> bool) list"
  down_now :: results
  recovered_now :: results

text \<open>
  One pass of the inner loop body. The \<^verbatim>\<open>continue\<close> of a first observation is the
  \<open>None\<close> branch; otherwise the two tests run in turn and the flag is overwritten.
\<close>

definition detect_row :: "string \<Rightarrow> row \<Rightarrow> detection \<Rightarrow> detection" where
  "detect_row grp r acc =
     (let key = node_key grp r;
          prev = map_of (flags acc) key;
          curr = is_issue r
      in (case prev of
            None \<Rightarrow> acc\<lparr>flags := AList.update key curr (flags acc)\<rparr>
          | Some p \<Rightarrow>
              let acc1 =
                    (if p = False \<and> curr = True
                     then acc\<lparr>down_now :=
                            AList.map_entry grp incr_issues
                              (AList.map_entry grp (append_row r)
                                 (setdefault grp no_rows (down_now acc)))\<rparr>
                     else acc);
                  acc2 =
                    (if p = True \<and> curr = False
                     then acc1\<lparr>recovered_now :=
                            AList.map_entry grp (append_row r)
                              (setdefault grp no_rows (recovered_now acc1))\<rparr>
                     else acc1)
              in acc2\<lparr>flags := AList.update key curr (flags acc2)\<rparr>))"

fun detect_rows :: "string \<Rightarrow> row list \<Rightarrow> detection \<Rightarrow> detection" where
  "detect_rows grp [] acc = acc"
| "detect_rows grp (r # rs) acc = detect_rows grp rs (detect_row grp r acc)"

fun detect_groups :: "results \<Rightarrow> detection \<Rightarrow> detection" where
  "detect_groups [] acc = acc"
| "detect_groups ((grp, data) # rest) acc =
     detect_groups rest (detect_rows grp (rows data) acc)"

text \<open>The whole loop, started with empty \<^verbatim>\<open>down_now\<close> and \<^verbatim>\<open>recovered_now\<close>.\<close>

definition loop_start :: "(string \<times> bool) list \<Rightarrow> detection" where
  "loop_start ns = \<lparr>flags = ns, down_now = [], recovered_now = []\<rparr>"

definition detect :: "results \<Rightarrow> (string \<times> bool) list \<Rightarrow> detection" where
  "detect results ns = detect_groups results (loop_start ns)"

text \<open>The rows recorded for a group in \<^verbatim>\<open>down_now\<close> or \<^verbatim>\<open>recovered_now\<close>.\<close>

definition alert_rows :: "results \<Rightarrow> string \<Rightarrow> row list" where
  "alert_rows alerts grp = (case map_of alerts grp of None \<Rightarrow> [] | Some d \<Rightarrow> rows d)"

text \<open>The (group, row) pairs in the order the nested loop visits them.\<close>

definition visits :: "results \<Rightarrow> (string \<times> row) list" where
  "visits results = concat (map (\<lambda>(grp, data). map (Pair grp) (rows data)) results)"

text \<open>The loop body run over a list of visits.\<close>

fun detect_visits :: "(string \<times> row) list \<Rightarrow> detection \<Rightarrow> detection" where
  "detect_visits [] acc = acc"
| "detect_visits ((grp, r) # vs) acc = detect_visits vs (detect_row grp r acc)"

section \<open>Reports, mail and the log\<close>

text \<open>
  \<^verbatim>\<open>build_report_html\<close> renders a document from its two arguments and the clock. The
  model keeps what the markup is computed from: the banner (\<^verbatim>\<open>healthy\<close> is
  \<^verbatim>\<open>overall_issues == 0\<close>), the two totals of the second box, and one section per
  group showing the group's \<^verbatim>\<open>issues\<close> value and its rows.
\<close>

datatype banner = ALL_SYSTEMS_HEALTHY | ACTIVE_ISSUES int

record report =
  banner :: banner
  total_nodes :: nat
  issues_shown :: int
  sections :: results

definition build_report_html :: "results \<Rightarrow> int \<Rightarrow> report" where
  "build_report_html results overall_issues =
     (let healthy = (overall_issues = 0);
          total = sum_list (map (\<lambda>(grp, d). length (rows d)) results)
      in \<lparr>banner = (if healthy then ALL_SYSTEMS_HEALTHY else ACTIVE_ISSUES overall_issues),
          total_nodes = total,
          issues_shown = overall_issues,
          sections = results\<rparr>)"

text \<open>The three prefixes passed to \<^verbatim>\<open>send_group_alerts\<close>, and the subject lines.\<close>

datatype alert_prefix = NODE_DOWN | NODE_BACK_ONLINE | ISSUE_NOT_RESOLVED

datatype subject = GroupSubject alert_prefix string | DAILY_SUMMARY

datatype log_line =
    Started
  | Loaded nat string
  | ErrorLoading string
  | DownAlertSent nat
  | RecoveryAlertSent nat
  | DailySummarySent
  | DailyReminderSent

text \<open>
  What a run does to the outside: calls of \<^verbatim>\<open>send_email\<close> (the recipients are \<open>None\<close>
  when the call leaves them to the mailer's default) and lines written by \<^verbatim>\<open>log\<close>.
\<close>

datatype event = Email subject report "string list option" | Log log_line

definition GROUPS :: "(string \<times> string) list" where
  "GROUPS =
     [(''RNC Cluster'', ''config/cluster_nodes.json''),
      (''DGX Servers'', ''config/dgx_nodes.json''),
      (''License Servers'', ''config/license_servers.json''),
      (''NIS Servers'', ''config/nis_servers.json'')]"

definition GROUP_EMAIL_MAP :: "(string \<times> string list) list" where
  "GROUP_EMAIL_MAP =
     [(''RNC Cluster'',
         [''dhyann@iisc.ac.in'', ''naveennayaka@iisc.ac.in'', ''shrinivasam@iisc.ac.in'']),
      (''DGX Servers'',
         [''dhyann@iisc.ac.in'', ''naveennayaka@iisc.ac.in'', ''shrinivasam@iisc.ac.in'']),
      (''License Servers'',
         [''dhyann@iisc.ac.in'', ''akhileshku@iisc.ac.in'', ''shivaprasadl@iisc.ac.in'']),
      (''NIS Servers'',
         [''dhyann@iisc.ac.in'', ''shivaprasadl@iisc.ac.in'', ''manjulap@iisc.ac.in''])]"

text \<open>
  \<^verbatim>\<open>send_group_alerts\<close>: one mail per group, skipping a group without rows and a group
  whose recipients are missing or empty.
\<close>

fun send_group_alerts :: "alert_prefix \<Rightarrow> results \<Rightarrow> event list" where
  "send_group_alerts prefix [] = []"
| "send_group_alerts prefix ((grp, data) # rest) =
     (if rows data = [] then send_group_alerts prefix rest
      else (case map_of GROUP_EMAIL_MAP grp of
              None \<Rightarrow> send_group_alerts prefix rest
            | Some recipients \<Rightarrow>
                if recipients = [] then send_group_alerts prefix rest
                else Email (GroupSubject prefix grp)
                       (build_report_html [(grp, data)] (issues data)) (Some recipients)
                     # send_group_alerts prefix rest))"

section \<open>The notification rules of main\<close>

definition count_rows :: "results \<Rightarrow> nat" where
  "count_rows alerts = sum_list (map (\<lambda>(grp, v). length (rows v)) alerts)"

definition down_alert :: "results \<Rightarrow> event list" where
  "down_alert down =
     (if down \<noteq> []
      then send_group_alerts NODE_DOWN down @ [Log (DownAlertSent (count_rows down))]
      else [])"

definition recovery_alert :: "results \<Rightarrow> state \<Rightarrow> state \<times> event list" where
  "recovery_alert recovered st =
     (if recovered \<noteq> []
      then (st\<lparr>last_daily_reminder := ''''\<rparr>,
            send_group_alerts NODE_BACK_ONLINE recovered
              @ [Log (RecoveryAlertSent (count_rows recovered))])
      else (st, []))"

definition daily_summary ::
  "nat \<Rightarrow> string \<Rightarrow> results \<Rightarrow> int \<Rightarrow> state \<Rightarrow> state \<times> event list" where
  "daily_summary hour today results overall_issues st =
     (if hour = DAILY_SUMMARY_HOUR \<and> last_daily_summary st \<noteq> today
      then (st\<lparr>last_daily_summary := today\<rparr>,
            [Email DAILY_SUMMARY (build_report_html results overall_issues) None,
             Log DailySummarySent])
      else (st, []))"

text \<open>The dictionary comprehension \<^verbatim>\<open>issues_only\<close>, over the distinct keys of \<^verbatim>\<open>results\<close>.\<close>

definition issues_only :: "results \<Rightarrow> results" where
  "issues_only results =
     map (\<lambda>(g, d). (g, \<lparr>rows = filter is_issue (rows d), issues = issues d\<rparr>))
       (filter (\<lambda>(g, d). issues d > 0) results)"

definition daily_reminder ::
  "nat \<Rightarrow> string \<Rightarrow> results \<Rightarrow> int \<Rightarrow> state \<Rightarrow> state \<times> event list" where
  "daily_reminder hour today results overall_issues st =
     (if overall_issues > 0 \<and> hour = DAILY_REMINDER_HOUR \<and> last_daily_reminder st \<noteq> today
      then (st\<lparr>last_daily_reminder := today\<rparr>,
            send_group_alerts ISSUE_NOT_RESOLVED (issues_only results)
              @ [Log DailyReminderSent])
      else (st, []))"

text \<open>
  \<^verbatim>\<open>main\<close> from the loop to the state handed to \<^verbatim>\<open>save_state\<close>: the loaded state, the
  hour of \<^verbatim>\<open>now\<close>, the text of \<^verbatim>\<open>today\<close> and the pair returned by \<^verbatim>\<open>run_checks_once\<close>
  go in; the state to save and the mails and log lines, in order, come out.
\<close>

definition main_after_checks ::
  "state \<Rightarrow> nat \<Rightarrow> string \<Rightarrow> results \<Rightarrow> int \<Rightarrow> state \<times> event list" where
  "main_after_checks st hour today results overall_issues =
     (let acc = detect results (node_state st);
          st1 = st\<lparr>node_state := flags acc\<rparr>;
          ev1 = down_alert (down_now acc);
          (st2, ev2) = recovery_alert (recovered_now acc) st1;
          (st3, ev3) = daily_summary hour today results overall_issues st2;
          (st4, ev4) = daily_reminder hour today results overall_issues st3
      in (st4, ev1 @ ev2 @ ev3 @ ev4))"

text \<open>
  Successive invocations on one calendar date: the state a run saves is the state the
  next run loads; each run has its own hour, results and issue total.
\<close>

record run_input =
  run_hour :: nat
  run_results :: results
  run_issues :: int

fun runs :: "string \<Rightarrow> run_input list \<Rightarrow> state \<Rightarrow> state \<times> event list" where
  "runs today [] st = (st, [])"
| "runs today (i # rest) st =
     (case main_after_checks st (run_hour i) today (run_results i) (run_issues i) of
        (st', evs) \<Rightarrow>
          (case runs today rest st' of (st'', evs') \<Rightarrow> (st'', evs @ evs')))"

definition summaries_sent :: "event list \<Rightarrow> nat" where
  "summaries_sent evs = length (filter (\<lambda>e. e = Log DailySummarySent) evs)"

definition reminders_sent :: "event list \<Rightarrow> nat" where
  "reminders_sent evs = length (filter (\<lambda>e. e = Log DailyReminderSent) evs)"

fun is_recovery_log :: "event \<Rightarrow> bool" where
  "is_recovery_log (Log (RecoveryAlertSent n)) = True"
| "is_recovery_log e = False"

definition recoveries_sent :: "event list \<Rightarrow> nat" where
  "recoveries_sent evs = length (filter is_recovery_log evs)"

fun is_reminder_mail :: "event \<Rightarrow> bool" where
  "is_reminder_mail (Email (GroupSubject ISSUE_NOT_RESOLVED grp) rep rcpt) = True"
| "is_reminder_mail e = False"

text \<open>The mails themselves: the daily summary, and the reminder sent for one group.\<close>

fun is_summary_mail :: "event \<Rightarrow> bool" where
  "is_summary_mail (Email DAILY_SUMMARY rep rcpt) = True"
| "is_summary_mail e = False"

definition summary_mails :: "event list \<Rightarrow> nat" where
  "summary_mails evs = length (filter is_summary_mail evs)"

fun is_reminder_mail_to :: "string \<Rightarrow> event \<Rightarrow> bool" where
  "is_reminder_mail_to g (Email (GroupSubject ISSUE_NOT_RESOLVED grp) rep rcpt) = (grp = g)"
| "is_reminder_mail_to g e = False"

definition reminder_mails_to :: "string \<Rightarrow> event list \<Rightarrow> nat" where
  "reminder_mails_to g evs = length (filter (is_reminder_mail_to g) evs)"

text \<open>The number of runs of a sequence in which the loop found a recovery.\<close>

fun recovery_runs :: "string \<Rightarrow> run_input list \<Rightarrow> state \<Rightarrow> nat" where
  "recovery_runs today [] st = 0"
| "recovery_runs today (i # rest) st =
     (if recovered_now (detect (run_results i) (node_state st)) \<noteq> [] then 1 else 0)
       + recovery_runs today rest
           (fst (main_after_checks st (run_hour i) today (run_results i) (run_issues i)))"

section \<open>run_checks_once\<close>

text \<open>
  One entry of a group's configuration, with its optional keys, together with what the
  three external calls return for it in this run: \<^verbatim>\<open>ping_check\<close>, \<^verbatim>\<open>ssh_check\<close> (consulted
  only when ssh is not skipped) and \<^verbatim>\<open>update_status_files\<close>.
\<close>

record node =
  cfg_name :: "string option"
  cfg_ip :: "string option"
  cfg_skip_ssh :: "bool option"
  cfg_role :: "string option"
  ping_check :: "bool \<times> string"
  ssh_check :: "bool \<times> string"
  update_status_files :: "string \<times> string"

definition get_or :: "'a option \<Rightarrow> 'a \<Rightarrow> 'a" where
  "get_or v d = (case v of None \<Rightarrow> d | Some x \<Rightarrow> x)"

definition check_node :: "node \<Rightarrow> row" where
  "check_node entry =
     (let nm = get_or (cfg_name entry) '''';
          addr = get_or (cfg_ip entry) '''';
          skip_ssh = get_or (cfg_skip_ssh entry) False;
          (ping_ok, ping_msg) = ping_check entry;
          (ssh_ok, ssh_msg) = (if skip_ssh then (True, ''skipped'') else ssh_check entry);
          issue = (\<not> ping_ok \<or> (\<not> skip_ssh \<and> \<not> ssh_ok));
          (seen, up) = update_status_files entry
      in \<lparr>name = nm,
          ip = (if addr = '''' then ''-'' else addr),
          ping = (if ping_ok then Ok else Failed ping_msg),
          ssh = (if ssh_ok then Ok else Failed ssh_msg),
          last_seen = seen,
          uptime = up,
          is_issue = issue,
          role = get_or (cfg_role entry) ''default''\<rparr>)"

fun check_nodes :: "node list \<Rightarrow> row list \<times> int \<Rightarrow> row list \<times> int" where
  "check_nodes [] acc = acc"
| "check_nodes (entry # rest) (rs, n) =
     (let r = check_node entry
      in check_nodes rest (rs @ [r], (if is_issue r then n + 1 else n)))"

text \<open>
  The outer loop over \<^verbatim>\<open>GROUPS\<close>; \<open>load_config\<close> gives \<open>None\<close> where the call raises,
  and the group is then skipped.
\<close>

fun check_groups ::
  "(string \<times> string) list \<Rightarrow> (string \<Rightarrow> node list option) \<Rightarrow>
     results \<times> int \<times> event list \<Rightarrow> results \<times> int \<times> event list" where
  "check_groups [] load_config acc = acc"
| "check_groups ((group_name, cfg_path) # rest) load_config (res, total_issues, logs) =
     (case load_config cfg_path of
        None \<Rightarrow>
          check_groups rest load_config (res, total_issues, logs @ [Log (ErrorLoading cfg_path)])
      | Some nodes \<Rightarrow>
          (case check_nodes nodes ([], 0) of (rs, n) \<Rightarrow>
             check_groups rest load_config
               (AList.update group_name \<lparr>rows = rs, issues = n\<rparr> res,
                total_issues + n,
                logs @ [Log (Loaded (length nodes) group_name)])))"

definition run_checks_once ::
  "(string \<Rightarrow> node list option) \<Rightarrow> results \<times> int \<times> event list" where
  "run_checks_once load_config = check_groups GROUPS load_config ([], 0, [])"

section \<open>The date of a run\<close>

text \<open>
  \<^verbatim>\<open>date.today().isoformat()\<close> is the year on four digits, the month and the day on two,
  joined by hyphens.
\<close>

record pydate =
  year :: nat
  month :: nat
  day :: nat

fun digits :: "nat \<Rightarrow> string" where
  "digits n =
     (if n < 10 then [''0123456789'' ! n]
      else digits (n div 10) @ [''0123456789'' ! (n mod 10)])"

declare digits.simps [simp del]

definition zfill :: "nat \<Rightarrow> string \<Rightarrow> string" where
  "zfill w s = replicate (w - length s) (CHR ''0'') @ s"

definition isoformat :: "pydate \<Rightarrow> string" where
  "isoformat d =
     zfill 4 (digits (year d)) @ ''-'' @ zfill 2 (digits (month d)) @ ''-''
       @ zfill 2 (digits (day d))"

text \<open>\<^verbatim>\<open>main\<close> between \<^verbatim>\<open>load_state\<close> and \<^verbatim>\<open>save_state\<close>.\<close>

definition main ::
  "state \<Rightarrow> nat \<Rightarrow> pydate \<Rightarrow> (string \<Rightarrow> node list option) \<Rightarrow> state \<times> event list" where
  "main st hour d load_config =
     (let today = isoformat d
      in (case run_checks_once load_config of (res, overall_issues, logs) \<Rightarrow>
            (case main_after_checks st hour today res overall_issues of
               (st', evs) \<Rightarrow> (st', Log Started # logs @ evs))))"

section \<open>The state file\<close>

text \<open>
  What \<^verbatim>\<open>json.loads\<close> can return. \<^verbatim>\<open>json.loads\<close> and \<^verbatim>\<open>json.dumps\<close> are library
  functions and enter as parameters: \<open>loads\<close> gives \<open>None\<close> where the call raises.
\<close>

datatype json =
    JNull
  | JBool bool
  | JNum int
  | JStr string
  | JArr "json list"
  | JObj "(string \<times> json) list"

text \<open>
  The file at \<^verbatim>\<open>STATE_FILE\<close>: absent, present but failing to read (a directory, no
  permission, bytes that do not decode), or its text. Whether \<^verbatim>\<open>write_text\<close> on it
  succeeds is a fact of the disk too; a failing write raises.
\<close>

datatype state_file = Missing | Unreadable | Contents string

record disk =
  stored :: state_file
  writable :: bool

datatype io_error = WriteFailed

definition default_state :: "(string \<times> json) list" where
  "default_state =
     [(''node_state'', JObj []),
      (''last_daily_summary'', JStr ''''),
      (''last_daily_reminder'', JStr '''')]"

definition save_state ::
  "(json \<Rightarrow> string) \<Rightarrow> (string \<times> json) list \<Rightarrow> disk \<Rightarrow> io_error + disk" where
  "save_state dumps st dk =
     (if writable dk then Inr (dk\<lparr>stored := Contents (dumps (JObj st))\<rparr>) else Inl WriteFailed)"

text \<open>
  \<^verbatim>\<open>load_state\<close> returns the dictionary and the disk it leaves behind. Any exception
  inside the \<^verbatim>\<open>try\<close> falls through to the default: a failing read, a failing parse, and
  a parsed value that is not a dictionary (it has no \<^verbatim>\<open>setdefault\<close>). The call
  \<^verbatim>\<open>save_state(default)\<close> stands after the \<^verbatim>\<open>try\<close>, so its exception leaves
  \<^verbatim>\<open>load_state\<close>.
\<close>

definition load_state ::
  "(string \<Rightarrow> json option) \<Rightarrow> (json \<Rightarrow> string) \<Rightarrow> disk \<Rightarrow>
     io_error + ((string \<times> json) list \<times> disk)" where
  "load_state loads dumps dk =
     (let fallback =
            (case save_state dumps default_state dk of
               Inl e \<Rightarrow> Inl e
             | Inr dk' \<Rightarrow> Inr (default_state, dk'))
      in (case stored dk of
            Contents text \<Rightarrow>
              (case loads text of
                 Some (JObj data) \<Rightarrow>
                   Inr (fold (\<lambda>(k, v) d. setdefault k v d) default_state data, dk)
               | _ \<Rightarrow> fallback)
          | _ \<Rightarrow> fallback))"

section \<open>Sample inputs\<close>

text \<open>
  The row \<^verbatim>\<open>run_checks_once\<close> builds for a node called \<open>nm\<close> with ssh skipped, whose
  ping fails exactly when \<open>bad\<close> holds.
\<close>

definition probe_row :: "string \<Rightarrow> bool \<Rightarrow> row" where
  "probe_row nm bad =
     check_node \<lparr>cfg_name = Some nm, cfg_ip = None, cfg_skip_ssh = Some True, cfg_role = None,
                 ping_check = (\<not> bad, ''timeout''), ssh_check = (True, ''''),
                 update_status_files = (''-'', ''-'')\<rparr>"
text \<open>The same for a configuration entry without a \<^verbatim>\<open>name\<close> key.\<close>

definition unnamed_row :: "bool \<Rightarrow> row" where
  "unnamed_row bad =
     check_node \<lparr>cfg_name = None, cfg_ip = None, cfg_skip_ssh = Some True, cfg_role = None,
                 ping_check = (\<not> bad, ''timeout''), ssh_check = (True, ''''),
                 update_status_files = (''-'', ''-'')\<rparr>"
text \<open>
  A state in which two nodes of one group are known to be down, the results of a run that
  finds both still down, and the results of a run that finds the first one back.
\<close>

definition both_known_down :: "string \<Rightarrow> state" where
  "both_known_down reminded =
     \<lparr>node_state = [(''NIS Servers:n1'', True), (''NIS Servers:n2'', True)],
      last_daily_summary = '''',
      last_daily_reminder = reminded\<rparr>"

definition both_down :: results where
  "both_down =
     [(''NIS Servers'', \<lparr>rows = [probe_row ''n1'' True, probe_row ''n2'' True], issues = 2\<rparr>)]"

definition one_back :: results where
  "one_back =
     [(''NIS Servers'', \<lparr>rows = [probe_row ''n1'' False, probe_row ''n2'' True], issues = 1\<rparr>)]"

text \<open>
  The configuration entry behind \<open>probe_row\<close>, and a \<^verbatim>\<open>load_config\<close> that finds two such
  entries for the NIS servers, the first reachable and the second not, and fails for the
  other three groups.
\<close>

definition probe_node :: "string \<Rightarrow> bool \<Rightarrow> node" where
  "probe_node nm bad =
     \<lparr>cfg_name = Some nm, cfg_ip = None, cfg_skip_ssh = Some True, cfg_role = None,
      ping_check = (\<not> bad, ''timeout''), ssh_check = (True, ''''),
      update_status_files = (''-'', ''-'')\<rparr>"

definition nis_only :: "string \<Rightarrow> node list option" where
  "nis_only path =
     (if path = ''config/nis_servers.json''
      then Some [probe_node ''n1'' False, probe_node ''n2'' True] else None)"

section \<open>The loop as a run over its visits\<close>

lemma detect_rows_visits:
  "detect_rows g rs acc = detect_visits (map (Pair g) rs) acc"
  by (induction rs arbitrary: acc) simp_all

lemma detect_visits_append:
  "detect_visits (vs @ ws) acc = detect_visits ws (detect_visits vs acc)"
  by (induction vs arbitrary: acc) auto

lemma detect_groups_visits:
  "detect_groups res acc = detect_visits (visits res) acc"
  by (induction res arbitrary: acc)
    (auto simp: visits_def detect_rows_visits detect_visits_append)

lemma detect_visits_eq:
  "detect res ns = detect_visits (visits res) (loop_start ns)"
  by (simp add: detect_def detect_groups_visits)

lemma flags_detect_row:
  "flags (detect_row g r acc) = AList.update (node_key g r) (is_issue r) (flags acc)"
  by (simp add: detect_row_def Let_def split: option.splits)

lemma map_of_flags_detect_row:
  "map_of (flags (detect_row g r acc)) k =
     (if k = node_key g r then Some (is_issue r) else map_of (flags acc) k)"
  by (simp add: flags_detect_row update_conv')

lemma keys_detect_row:
  "fst ` set (flags (detect_row g r acc)) = insert (node_key g r) (fst ` set (flags acc))"
  by (simp add: flags_detect_row dom_update)

lemma keys_detect_visits:
  "fst ` set (flags (detect_visits vs acc)) =
     (\<lambda>(g, r). node_key g r) ` set vs \<union> fst ` set (flags acc)"
  by (induction vs acc rule: detect_visits.induct) (simp_all add: keys_detect_row)

lemma map_of_flags_unvisited:
  "\<forall>(g, r) \<in> set vs. node_key g r \<noteq> k \<Longrightarrow>
     map_of (flags (detect_visits vs acc)) k = map_of (flags acc) k"
  by (induction vs arbitrary: acc) (auto simp: map_of_flags_detect_row)

lemma map_of_flags_agreeing:
  "map_of (flags acc) k = Some b \<Longrightarrow>
   \<forall>(g, r) \<in> set vs. node_key g r = k \<longrightarrow> is_issue r = b \<Longrightarrow>
     map_of (flags (detect_visits vs acc)) k = Some b"
  by (induction vs arbitrary: acc) (auto simp: map_of_flags_detect_row)

lemma flag_known_after:
  "map_of (flags acc) k = Some b \<Longrightarrow>
     \<exists>b'. map_of (flags (detect_visits vs acc)) k = Some b'"
proof (induction vs arbitrary: acc b)
  case Nil
  then show ?case by simp
next
  case (Cons v vs)
  obtain g r where v: "v = (g, r)" by (cases v)
  have "\<exists>b1. map_of (flags (detect_row g r acc)) k = Some b1"
    using Cons.prems by (simp add: map_of_flags_detect_row)
  then show ?case using Cons.IH v by auto
qed


lemma map_of_setdefault:
  "map_of (setdefault k v d) k' =
     (if k' = k then Some (case map_of d k of None \<Rightarrow> v | Some x \<Rightarrow> x) else map_of d k')"
  by (auto simp: setdefault_def map_add_def split: option.splits)

lemma distinct_setdefault:
  "distinct (map fst d) \<Longrightarrow> distinct (map fst (setdefault k v d))"
  by (auto simp: setdefault_def map_of_eq_None_iff split: option.splits)

lemma down_now_detect_row:
  "down_now (detect_row g r acc) =
     (if map_of (flags acc) (node_key g r) = Some False \<and> is_issue r
      then AList.map_entry g incr_issues
             (AList.map_entry g (append_row r) (setdefault g no_rows (down_now acc)))
      else down_now acc)"
  by (auto simp: detect_row_def Let_def split: option.splits)

lemma recovered_now_detect_row:
  "recovered_now (detect_row g r acc) =
     (if map_of (flags acc) (node_key g r) = Some True \<and> \<not> is_issue r
      then AList.map_entry g (append_row r) (setdefault g no_rows (recovered_now acc))
      else recovered_now acc)"
  by (auto simp: detect_row_def Let_def split: option.splits)

lemma map_of_added_down:
  "map_of (AList.map_entry g incr_issues
             (AList.map_entry g (append_row r) (setdefault g no_rows d))) g' =
     (if g' = g
      then Some (incr_issues (append_row r
                   (case map_of d g of None \<Rightarrow> no_rows | Some x \<Rightarrow> x)))
      else map_of d g')"
  by (simp add: map_of_map_entry map_of_setdefault)

lemma map_of_added_recovered:
  "map_of (AList.map_entry g (append_row r) (setdefault g no_rows d)) g' =
     (if g' = g
      then Some (append_row r (case map_of d g of None \<Rightarrow> no_rows | Some x \<Rightarrow> x))
      else map_of d g')"
  by (simp add: map_of_map_entry map_of_setdefault)

lemma alert_rows_added_down:
  "alert_rows (AList.map_entry g incr_issues
                 (AList.map_entry g (append_row r) (setdefault g no_rows d))) g' =
     (if g' = g then alert_rows d g @ [r] else alert_rows d g')"
  by (simp add: alert_rows_def map_of_added_down)
    (simp add: incr_issues_def append_row_def no_rows_def split: option.splits)

lemma alert_rows_added_recovered:
  "alert_rows (AList.map_entry g (append_row r) (setdefault g no_rows d)) g' =
     (if g' = g then alert_rows d g @ [r] else alert_rows d g')"
  by (simp add: alert_rows_def map_of_added_recovered)
    (simp add: append_row_def no_rows_def split: option.splits)

lemma down_rows_grow:
  "set (alert_rows (down_now acc) g') \<subseteq> set (alert_rows (down_now (detect_row g r acc)) g')"
  by (auto simp: down_now_detect_row alert_rows_added_down)

lemma recovered_rows_grow:
  "set (alert_rows (recovered_now acc) g') \<subseteq>
     set (alert_rows (recovered_now (detect_row g r acc)) g')"
  by (auto simp: recovered_now_detect_row alert_rows_added_recovered)

lemma down_rows_kept:
  "set (alert_rows (down_now acc) g') \<subseteq> set (alert_rows (down_now (detect_visits vs acc)) g')"
proof (induction vs acc rule: detect_visits.induct)
  case (1 acc)
  then show ?case by simp
next
  case (2 g r vs acc)
  then show ?case using down_rows_grow [of acc g' g r] by auto
qed

lemma recovered_rows_kept:
  "set (alert_rows (recovered_now acc) g') \<subseteq>
     set (alert_rows (recovered_now (detect_visits vs acc)) g')"
proof (induction vs acc rule: detect_visits.induct)
  case (1 acc)
  then show ?case by simp
next
  case (2 g r vs acc)
  then show ?case using recovered_rows_grow [of acc g' g r] by auto
qed


lemma detect_split:
  "visits res = pre @ (g, r) # post \<Longrightarrow>
     detect res ns = detect_visits post (detect_row g r (detect_visits pre (loop_start ns)))"
  by (simp add: detect_visits_eq detect_visits_append)

lemma keys_kept: "fst ` set ns \<subseteq> fst ` set (flags (detect res ns))"
  by (simp add: detect_visits_eq keys_detect_visits loop_start_def)

lemma flag_after_visit:
  assumes "visits res = pre @ (g, r) # post"
    and "\<forall>(g', r') \<in> set post. node_key g' r' = node_key g r \<longrightarrow> is_issue r' = is_issue r"
  shows "map_of (flags (detect res ns)) (node_key g r) = Some (is_issue r)"
proof -
  have "map_of (flags (detect_row g r (detect_visits pre (loop_start ns)))) (node_key g r)
      = Some (is_issue r)"
    by (simp add: map_of_flags_detect_row)
  then have "map_of (flags (detect_visits post (detect_row g r (detect_visits pre (loop_start ns)))))
      (node_key g r) = Some (is_issue r)"
    using assms(2) by (rule map_of_flags_agreeing)
  then show ?thesis
    by (simp only: detect_split [OF assms(1)])
qed

lemma detect_row_same:
  "map_of (flags acc) (node_key g r) = Some (is_issue r) \<Longrightarrow> detect_row g r acc = acc"
  by (simp add: detect_row_def Let_def update_triv)

lemma detect_visits_same:
  "\<forall>(g, r) \<in> set vs. map_of (flags acc) (node_key g r) = Some (is_issue r) \<Longrightarrow>
     detect_visits vs acc = acc"
  by (induction vs acc rule: detect_visits.induct) (simp_all add: detect_row_same)

lemma rerun_fixed:
  assumes "\<forall>(g1, r1) \<in> set (visits results). \<forall>(g2, r2) \<in> set (visits results).
             node_key g1 r1 = node_key g2 r2 \<longrightarrow> is_issue r1 = is_issue r2"
  shows "detect results (flags (detect results ns)) = loop_start (flags (detect results ns))"
proof -
  have known: "map_of (flags (detect results ns)) (node_key g r) = Some (is_issue r)"
    if mem: "(g, r) \<in> set (visits results)" for g r
  proof -
    from mem obtain pre post where sp: "visits results = pre @ (g, r) # post"
      by (meson split_list)
    have "\<forall>(g', r') \<in> set post. node_key g' r' = node_key g r \<longrightarrow> is_issue r' = is_issue r"
    proof (clarify)
      fix g' r'
      assume in_post: "(g', r') \<in> set post" and same: "node_key g' r' = node_key g r"
      have "(g', r') \<in> set (visits results)" using in_post sp by simp
      with assms mem same show "is_issue r' = is_issue r" by fastforce
    qed
    with sp show ?thesis by (rule flag_after_visit)
  qed
  have "\<forall>(g, r) \<in> set (visits results).
      map_of (flags (loop_start (flags (detect results ns)))) (node_key g r) = Some (is_issue r)"
    using known by (auto simp: loop_start_def)
  then show ?thesis
    by (simp add: detect_visits_eq detect_visits_same)
qed

section \<open>Invariants of the two alert dictionaries\<close>

lemma down_counts_detect_row:
  assumes "\<forall>g d. map_of (down_now acc) g = Some d \<longrightarrow> issues d = int (length (rows d))"
  shows "\<forall>g' d. map_of (down_now (detect_row g r acc)) g' = Some d
           \<longrightarrow> issues d = int (length (rows d))"
  using assms
  by (auto simp: down_now_detect_row map_of_added_down split: if_splits option.splits)
    (simp_all add: incr_issues_def append_row_def no_rows_def)

lemma recovered_counts_detect_row:
  assumes "\<forall>g d. map_of (recovered_now acc) g = Some d \<longrightarrow> issues d = 0"
  shows "\<forall>g' d. map_of (recovered_now (detect_row g r acc)) g' = Some d \<longrightarrow> issues d = 0"
  using assms
  by (auto simp: recovered_now_detect_row map_of_added_recovered split: if_splits option.splits)
    (simp_all add: append_row_def no_rows_def)

lemma distinct_down_detect_row:
  "distinct (map fst (down_now acc)) \<Longrightarrow> distinct (map fst (down_now (detect_row g r acc)))"
  by (simp add: down_now_detect_row distinct_map_entry distinct_setdefault)

lemma distinct_recovered_detect_row:
  "distinct (map fst (recovered_now acc)) \<Longrightarrow>
     distinct (map fst (recovered_now (detect_row g r acc)))"
  by (simp add: recovered_now_detect_row distinct_map_entry distinct_setdefault)

lemma down_counts_detect_visits:
  "\<forall>g d. map_of (down_now acc) g = Some d \<longrightarrow> issues d = int (length (rows d)) \<Longrightarrow>
   \<forall>g d. map_of (down_now (detect_visits vs acc)) g = Some d
           \<longrightarrow> issues d = int (length (rows d))"
proof (induction vs acc rule: detect_visits.induct)
  case (1 acc)
  then show ?case by simp
next
  case (2 g r vs acc)
  show ?case using "2.IH" [OF down_counts_detect_row [OF "2.prems"]] by simp
qed

lemma recovered_counts_detect_visits:
  "\<forall>g d. map_of (recovered_now acc) g = Some d \<longrightarrow> issues d = 0 \<Longrightarrow>
   \<forall>g d. map_of (recovered_now (detect_visits vs acc)) g = Some d \<longrightarrow> issues d = 0"
proof (induction vs acc rule: detect_visits.induct)
  case (1 acc)
  then show ?case by simp
next
  case (2 g r vs acc)
  show ?case using "2.IH" [OF recovered_counts_detect_row [OF "2.prems"]] by simp
qed

lemma distinct_down_detect_visits:
  "distinct (map fst (down_now acc)) \<Longrightarrow> distinct (map fst (down_now (detect_visits vs acc)))"
  by (induction vs acc rule: detect_visits.induct) (simp_all add: distinct_down_detect_row)

lemma distinct_recovered_detect_visits:
  "distinct (map fst (recovered_now acc)) \<Longrightarrow>
     distinct (map fst (recovered_now (detect_visits vs acc)))"
  by (induction vs acc rule: detect_visits.induct) (simp_all add: distinct_recovered_detect_row)

lemma down_counts:
  "(g, d) \<in> set (down_now (detect res ns)) \<Longrightarrow> issues d = int (length (rows d))"
proof -
  assume mem: "(g, d) \<in> set (down_now (detect res ns))"
  have "distinct (map fst (down_now (detect res ns)))"
    by (simp add: detect_visits_eq distinct_down_detect_visits loop_start_def)
  with mem have "map_of (down_now (detect res ns)) g = Some d" by simp
  moreover have "\<forall>g d. map_of (down_now (detect res ns)) g = Some d
      \<longrightarrow> issues d = int (length (rows d))"
    unfolding detect_visits_eq by (rule down_counts_detect_visits) (simp add: loop_start_def)
  ultimately show ?thesis by blast
qed

lemma recovered_counts:
  "(g, d) \<in> set (recovered_now (detect res ns)) \<Longrightarrow> issues d = 0"
proof -
  assume mem: "(g, d) \<in> set (recovered_now (detect res ns))"
  have "distinct (map fst (recovered_now (detect res ns)))"
    by (simp add: detect_visits_eq distinct_recovered_detect_visits loop_start_def)
  with mem have "map_of (recovered_now (detect res ns)) g = Some d" by simp
  moreover have "\<forall>g d. map_of (recovered_now (detect res ns)) g = Some d \<longrightarrow> issues d = 0"
    unfolding detect_visits_eq by (rule recovered_counts_detect_visits) (simp add: loop_start_def)
  ultimately show ?thesis by blast
qed

lemma send_group_alerts_mail:
  "e \<in> set (send_group_alerts prefix alerts) \<Longrightarrow>
     \<exists>g d rcpt. (g, d) \<in> set alerts \<and> rows d \<noteq> [] \<and>
       map_of GROUP_EMAIL_MAP g = Some rcpt \<and> rcpt \<noteq> [] \<and>
       e = Email (GroupSubject prefix g) (build_report_html [(g, d)] (issues d)) (Some rcpt)"
proof (induction prefix alerts rule: send_group_alerts.induct)
  case (1 prefix)
  then show ?case by simp
next
  case (2 prefix grp data rest)
  then show ?case
    by (fastforce split: if_splits option.splits)
qed

section \<open>The notification rules, one by one\<close>

lemma main_after_checks_unfold:
  "main_after_checks st hour today results n =
     (let acc = detect results (node_state st);
          r2 = recovery_alert (recovered_now acc) (st\<lparr>node_state := flags acc\<rparr>);
          r3 = daily_summary hour today results n (fst r2);
          r4 = daily_reminder hour today results n (fst r3)
      in (fst r4, down_alert (down_now acc) @ snd r2 @ snd r3 @ snd r4))"
  by (simp add: main_after_checks_def Let_def case_prod_beta)

lemma mails_only:
  "e \<in> set (send_group_alerts prefix alerts) \<Longrightarrow>
     \<exists>g rep rcpt. e = Email (GroupSubject prefix g) rep rcpt"
  using send_group_alerts_mail by blast

lemma no_log_in_mails: "Log l \<notin> set (send_group_alerts prefix alerts)"
  using mails_only by blast

lemma filter_log_mails [simp]:
  "filter (\<lambda>e. e = Log l) (send_group_alerts prefix alerts) = []"
  using no_log_in_mails [of l prefix alerts] by (auto simp: filter_empty_conv)

lemma filter_recovery_mails [simp]:
  "filter is_recovery_log (send_group_alerts prefix alerts) = []"
proof -
  have "\<not> is_recovery_log e" if "e \<in> set (send_group_alerts prefix alerts)" for e
    using mails_only [OF that] by auto
  then show ?thesis by (simp add: filter_empty_conv)
qed

lemma filter_reminder_mails:
  "filter is_reminder_mail (send_group_alerts prefix alerts) =
     (if prefix = ISSUE_NOT_RESOLVED then send_group_alerts prefix alerts else [])"
proof -
  have "is_reminder_mail e = (prefix = ISSUE_NOT_RESOLVED)"
    if "e \<in> set (send_group_alerts prefix alerts)" for e
    using mails_only [OF that] by (cases prefix) auto
  then show ?thesis by (auto simp: filter_empty_conv filter_id_conv)
qed

subsection \<open>what each rule sends\<close>

lemma down_alert_counts [simp]:
  "summaries_sent (down_alert down) = 0"
  "reminders_sent (down_alert down) = 0"
  "recoveries_sent (down_alert down) = 0"
  "filter is_reminder_mail (down_alert down) = []"
  "Log DailyReminderSent \<notin> set (down_alert down)"
  by (simp_all add: down_alert_def summaries_sent_def reminders_sent_def recoveries_sent_def
      filter_reminder_mails no_log_in_mails)

lemma recovery_alert_counts [simp]:
  "summaries_sent (snd (recovery_alert recovered st)) = 0"
  "reminders_sent (snd (recovery_alert recovered st)) = 0"
  "recoveries_sent (snd (recovery_alert recovered st)) = (if recovered \<noteq> [] then 1 else 0)"
  "filter is_reminder_mail (snd (recovery_alert recovered st)) = []"
  "Log DailyReminderSent \<notin> set (snd (recovery_alert recovered st))"
  by (simp_all add: recovery_alert_def summaries_sent_def reminders_sent_def recoveries_sent_def
      filter_reminder_mails no_log_in_mails)

lemma daily_summary_counts [simp]:
  "summaries_sent (snd (daily_summary hour today results n st)) =
     (if hour = DAILY_SUMMARY_HOUR \<and> last_daily_summary st \<noteq> today then 1 else 0)"
  "reminders_sent (snd (daily_summary hour today results n st)) = 0"
  "recoveries_sent (snd (daily_summary hour today results n st)) = 0"
  "filter is_reminder_mail (snd (daily_summary hour today results n st)) = []"
  "Log DailyReminderSent \<notin> set (snd (daily_summary hour today results n st))"
  by (simp_all add: daily_summary_def summaries_sent_def reminders_sent_def recoveries_sent_def)

lemma daily_reminder_counts [simp]:
  "summaries_sent (snd (daily_reminder hour today results n st)) = 0"
  "reminders_sent (snd (daily_reminder hour today results n st)) =
     (if n > 0 \<and> hour = DAILY_REMINDER_HOUR \<and> last_daily_reminder st \<noteq> today then 1 else 0)"
  "recoveries_sent (snd (daily_reminder hour today results n st)) = 0"
  "filter is_reminder_mail (snd (daily_reminder hour today results n st)) =
     (if n > 0 \<and> hour = DAILY_REMINDER_HOUR \<and> last_daily_reminder st \<noteq> today
      then send_group_alerts ISSUE_NOT_RESOLVED (issues_only results) else [])"
  "Log DailyReminderSent \<in> set (snd (daily_reminder hour today results n st)) \<longleftrightarrow>
     n > 0 \<and> hour = DAILY_REMINDER_HOUR \<and> last_daily_reminder st \<noteq> today"
  by (simp_all add: daily_reminder_def summaries_sent_def reminders_sent_def recoveries_sent_def
      filter_reminder_mails no_log_in_mails)

lemma counts_append [simp]:
  "summaries_sent (xs @ ys) = summaries_sent xs + summaries_sent ys"
  "reminders_sent (xs @ ys) = reminders_sent xs + reminders_sent ys"
  "recoveries_sent (xs @ ys) = recoveries_sent xs + recoveries_sent ys"
  by (simp_all add: summaries_sent_def reminders_sent_def recoveries_sent_def)

subsection \<open>what each rule stores\<close>

lemma recovery_alert_state [simp]:
  "last_daily_reminder (fst (recovery_alert recovered st)) =
     (if recovered \<noteq> [] then '''' else last_daily_reminder st)"
  "last_daily_summary (fst (recovery_alert recovered st)) = last_daily_summary st"
  "node_state (fst (recovery_alert recovered st)) = node_state st"
  by (simp_all add: recovery_alert_def)

lemma daily_summary_state [simp]:
  "last_daily_reminder (fst (daily_summary hour today results n st)) = last_daily_reminder st"
  "last_daily_summary (fst (daily_summary hour today results n st)) =
     (if hour = DAILY_SUMMARY_HOUR \<and> last_daily_summary st \<noteq> today then today
      else last_daily_summary st)"
  "node_state (fst (daily_summary hour today results n st)) = node_state st"
  by (simp_all add: daily_summary_def)

lemma daily_reminder_state [simp]:
  "last_daily_reminder (fst (daily_reminder hour today results n st)) =
     (if n > 0 \<and> hour = DAILY_REMINDER_HOUR \<and> last_daily_reminder st \<noteq> today then today
      else last_daily_reminder st)"
  "last_daily_summary (fst (daily_reminder hour today results n st)) = last_daily_summary st"
  "node_state (fst (daily_reminder hour today results n st)) = node_state st"
  by (simp_all add: daily_reminder_def)

subsection \<open>one run\<close>

lemma reminder_state:
  "last_daily_reminder (fst (main_after_checks st hour today results n)) =
     (let stored = (if recovered_now (detect results (node_state st)) \<noteq> [] then ''''
                    else last_daily_reminder st)
      in if n > 0 \<and> hour = DAILY_REMINDER_HOUR \<and> stored \<noteq> today then today else stored)"
  by (simp add: main_after_checks_unfold Let_def)

lemma summary_state:
  "last_daily_summary (fst (main_after_checks st hour today results n)) =
     (if hour = DAILY_SUMMARY_HOUR \<and> last_daily_summary st \<noteq> today then today
      else last_daily_summary st)"
  by (simp add: main_after_checks_unfold Let_def)

lemma node_state_after:
  "node_state (fst (main_after_checks st hour today results n)) =
     flags (detect results (node_state st))"
  by (simp add: main_after_checks_unfold Let_def)

lemma summaries_one_run:
  "summaries_sent (snd (main_after_checks st hour today results n)) =
     (if hour = DAILY_SUMMARY_HOUR \<and> last_daily_summary st \<noteq> today then 1 else 0)"
  by (simp add: main_after_checks_unfold Let_def)

lemma reminders_one_run:
  "reminders_sent (snd (main_after_checks st hour today results n)) =
     (let stored = (if recovered_now (detect results (node_state st)) \<noteq> [] then ''''
                    else last_daily_reminder st)
      in if n > 0 \<and> hour = DAILY_REMINDER_HOUR \<and> stored \<noteq> today then 1 else 0)"
  by (simp add: main_after_checks_unfold Let_def)

lemma recoveries_one_run:
  "recoveries_sent (snd (main_after_checks st hour today results n)) =
     (if recovered_now (detect results (node_state st)) \<noteq> [] then 1 else 0)"
  by (simp add: main_after_checks_unfold Let_def)

lemma reminder_mails_one_run:
  "filter is_reminder_mail (snd (main_after_checks st hour today results n)) =
     (let stored = (if recovered_now (detect results (node_state st)) \<noteq> [] then ''''
                    else last_daily_reminder st)
      in if n > 0 \<and> hour = DAILY_REMINDER_HOUR \<and> stored \<noteq> today
         then send_group_alerts ISSUE_NOT_RESOLVED (issues_only results) else [])"
  by (auto simp: main_after_checks_unfold Let_def)

lemma reminder_logged_one_run:
  "Log DailyReminderSent \<in> set (snd (main_after_checks st hour today results n)) \<longleftrightarrow>
     (let stored = (if recovered_now (detect results (node_state st)) \<noteq> [] then ''''
                    else last_daily_reminder st)
      in n > 0 \<and> hour = DAILY_REMINDER_HOUR \<and> stored \<noteq> today)"
  by (simp add: main_after_checks_unfold Let_def)

subsection \<open>several runs\<close>

lemma runs_Cons:
  "runs today (i # rest) st =
     (let out = main_after_checks st (run_hour i) today (run_results i) (run_issues i);
          later = runs today rest (fst out)
      in (fst later, snd out @ snd later))"
  by (simp add: Let_def case_prod_beta)

lemma summaries_runs:
  "summaries_sent (snd (runs today ins st)) \<le> (if last_daily_summary st = today then 0 else 1)"
proof (induction ins arbitrary: st)
  case Nil
  then show ?case by (simp add: summaries_sent_def)
next
  case (Cons i rest)
  define out where "out = main_after_checks st (run_hour i) today (run_results i) (run_issues i)"
  have one: "summaries_sent (snd out) =
      (if run_hour i = DAILY_SUMMARY_HOUR \<and> last_daily_summary st \<noteq> today then 1 else 0)"
    unfolding out_def by (rule summaries_one_run)
  have date: "last_daily_summary (fst out) =
      (if run_hour i = DAILY_SUMMARY_HOUR \<and> last_daily_summary st \<noteq> today then today
       else last_daily_summary st)"
    unfolding out_def by (rule summary_state)
  have later: "summaries_sent (snd (runs today rest (fst out)))
      \<le> (if last_daily_summary (fst out) = today then 0 else 1)"
    by (rule Cons.IH)
  have "summaries_sent (snd (runs today (i # rest) st))
      = summaries_sent (snd out) + summaries_sent (snd (runs today rest (fst out)))"
    by (simp add: runs_Cons Let_def out_def del: runs.simps)
  then show ?case using one date later by (auto split: if_splits)
qed

lemma reminders_runs:
  "reminders_sent (snd (runs today ins st))
     \<le> (if last_daily_reminder st = today then 0 else 1) + recoveries_sent (snd (runs today ins st))"
proof (induction ins arbitrary: st)
  case Nil
  then show ?case by (simp add: reminders_sent_def)
next
  case (Cons i rest)
  define out where "out = main_after_checks st (run_hour i) today (run_results i) (run_issues i)"
  define rec where "rec = (recovered_now (detect (run_results i) (node_state st)) \<noteq> [])"
  define stored where "stored = (if rec then '''' else last_daily_reminder st)"
  define due where "due = (run_issues i > 0 \<and> run_hour i = DAILY_REMINDER_HOUR \<and> stored \<noteq> today)"
  have one: "reminders_sent (snd out) = (if due then 1 else 0)"
    unfolding out_def due_def stored_def rec_def by (simp add: reminders_one_run Let_def)
  have recs: "recoveries_sent (snd out) = (if rec then 1 else 0)"
    unfolding out_def rec_def by (rule recoveries_one_run)
  have date: "last_daily_reminder (fst out) = (if due then today else stored)"
    unfolding out_def due_def stored_def rec_def by (simp add: reminder_state Let_def)
  have later: "reminders_sent (snd (runs today rest (fst out)))
      \<le> (if last_daily_reminder (fst out) = today then 0 else 1)
         + recoveries_sent (snd (runs today rest (fst out)))"
    by (rule Cons.IH)
  have split: "reminders_sent (snd (runs today (i # rest) st))
      = reminders_sent (snd out) + reminders_sent (snd (runs today rest (fst out)))"
    "recoveries_sent (snd (runs today (i # rest) st))
      = recoveries_sent (snd out) + recoveries_sent (snd (runs today rest (fst out)))"
    by (simp_all add: runs_Cons Let_def out_def del: runs.simps)
  show ?case
  proof (cases due)
    case True
    then have "last_daily_reminder (fst out) = today" using date by simp
    moreover have "last_daily_reminder st = today \<Longrightarrow> rec"
      using True by (auto simp: due_def stored_def split: if_splits)
    ultimately show ?thesis using split one recs later True by (auto split: if_splits)
  next
    case False
    have "last_daily_reminder (fst out) = stored" using date False by simp
    moreover have "last_daily_reminder st = today \<Longrightarrow> \<not> rec \<Longrightarrow> stored = today"
      by (simp add: stored_def)
    ultimately show ?thesis using split one recs later False by (auto split: if_splits)
  qed
qed

lemma isoformat_not_empty: "isoformat d \<noteq> ''''"
  by (simp add: isoformat_def)

lemma send_group_alerts_complete:
  "(g, d) \<in> set alerts \<Longrightarrow> rows d \<noteq> [] \<Longrightarrow> map_of GROUP_EMAIL_MAP g = Some rcpt \<Longrightarrow>
   rcpt \<noteq> [] \<Longrightarrow>
     Email (GroupSubject prefix g) (build_report_html [(g, d)] (issues d)) (Some rcpt)
       \<in> set (send_group_alerts prefix alerts)"
  by (induction prefix alerts rule: send_group_alerts.induct) (auto split: option.splits)

lemma set_issues_only:
  "set (issues_only results) =
     (\<lambda>(g, d). (g, \<lparr>rows = filter is_issue (rows d), issues = issues d\<rparr>))
       ` {(g, d) \<in> set results. issues d > 0}"
  by (auto simp: issues_only_def)

lemma keys_issues_only:
  "map fst (issues_only results) = map fst (filter (\<lambda>(g, d). issues d > 0) results)"
  by (simp add: issues_only_def case_prod_beta comp_def)

subsection \<open>mails, counted\<close>

lemma summary_mails_append [simp]:
  "summary_mails (xs @ ys) = summary_mails xs + summary_mails ys"
  by (simp add: summary_mails_def)

lemma reminder_mails_to_append [simp]:
  "reminder_mails_to g (xs @ ys) = reminder_mails_to g xs + reminder_mails_to g ys"
  by (simp add: reminder_mails_to_def)

lemma summary_mails_alerts [simp]: "summary_mails (send_group_alerts prefix alerts) = 0"
proof -
  have "\<not> is_summary_mail e" if "e \<in> set (send_group_alerts prefix alerts)" for e
    using mails_only [OF that] by auto
  then show ?thesis by (simp add: summary_mails_def filter_empty_conv)
qed

lemma reminder_mails_to_other_prefix:
  "prefix \<noteq> ISSUE_NOT_RESOLVED \<Longrightarrow> reminder_mails_to g (send_group_alerts prefix alerts) = 0"
proof -
  assume other: "prefix \<noteq> ISSUE_NOT_RESOLVED"
  have "\<not> is_reminder_mail_to g e" if "e \<in> set (send_group_alerts prefix alerts)" for e
    using mails_only [OF that] other by (cases prefix) auto
  then show ?thesis by (simp add: reminder_mails_to_def filter_empty_conv)
qed

lemma is_reminder_mail_to_iff:
  "is_reminder_mail_to g (Email (GroupSubject prefix grp) rep rcpt)
     \<longleftrightarrow> prefix = ISSUE_NOT_RESOLVED \<and> grp = g"
  by (cases prefix) auto

lemma send_group_alerts_Cons_cases:
  "send_group_alerts prefix ((grp, data) # rest) = send_group_alerts prefix rest \<or>
   (\<exists>rcpt. send_group_alerts prefix ((grp, data) # rest) =
      Email (GroupSubject prefix grp) (build_report_html [(grp, data)] (issues data)) (Some rcpt)
        # send_group_alerts prefix rest)"
  by (simp split: option.splits)

lemma reminder_mails_to_le_keys:
  "reminder_mails_to g (send_group_alerts prefix alerts)
     \<le> length (filter (\<lambda>k. k = g) (map fst alerts))"
proof (induction alerts)
  case Nil
  then show ?case by (simp add: reminder_mails_to_def)
next
  case (Cons p rest)
  obtain grp data where p: "p = (grp, data)" by (cases p)
  from send_group_alerts_Cons_cases [of prefix grp data rest] show ?case
  proof
    assume "send_group_alerts prefix ((grp, data) # rest) = send_group_alerts prefix rest"
    then show ?thesis using Cons.IH by (simp add: p del: send_group_alerts.simps)
  next
    assume "\<exists>rcpt. send_group_alerts prefix ((grp, data) # rest) =
      Email (GroupSubject prefix grp) (build_report_html [(grp, data)] (issues data)) (Some rcpt)
        # send_group_alerts prefix rest"
    then obtain rcpt where "send_group_alerts prefix ((grp, data) # rest) =
      Email (GroupSubject prefix grp) (build_report_html [(grp, data)] (issues data)) (Some rcpt)
        # send_group_alerts prefix rest"
      by blast
    then show ?thesis
      using Cons.IH
      by (auto simp: p reminder_mails_to_def is_reminder_mail_to_iff
          simp del: send_group_alerts.simps)
  qed
qed

lemma key_once: "distinct ks \<Longrightarrow> length (filter (\<lambda>k. k = g) ks) \<le> Suc 0"
  by (induction ks) (auto simp: filter_empty_conv)

lemma distinct_issues_only:
  "distinct (map fst results) \<Longrightarrow> distinct (map fst (issues_only results))"
  by (simp add: keys_issues_only distinct_map_filter)

lemma reminder_mails_to_one_dispatch:
  "distinct (map fst results) \<Longrightarrow>
     reminder_mails_to g (send_group_alerts ISSUE_NOT_RESOLVED (issues_only results)) \<le> 1"
  using reminder_mails_to_le_keys [of g ISSUE_NOT_RESOLVED "issues_only results"]
    key_once [OF distinct_issues_only, of results g]
  by simp

lemma rule_mails [simp]:
  "summary_mails (down_alert down) = 0"
  "reminder_mails_to g (down_alert down) = 0"
  "summary_mails (snd (recovery_alert recovered st)) = 0"
  "reminder_mails_to g (snd (recovery_alert recovered st)) = 0"
  "summary_mails (snd (daily_summary hour today results n st)) =
     (if hour = DAILY_SUMMARY_HOUR \<and> last_daily_summary st \<noteq> today then 1 else 0)"
  "reminder_mails_to g (snd (daily_summary hour today results n st)) = 0"
  "summary_mails (snd (daily_reminder hour today results n st)) = 0"
  by (simp_all add: down_alert_def recovery_alert_def daily_summary_def daily_reminder_def
      reminder_mails_to_other_prefix)
    (simp_all add: summary_mails_def reminder_mails_to_def)

lemma reminder_rule_mails:
  "distinct (map fst results) \<Longrightarrow>
     reminder_mails_to g (snd (daily_reminder hour today results n st))
       \<le> (if n > 0 \<and> hour = DAILY_REMINDER_HOUR \<and> last_daily_reminder st \<noteq> today
          then 1 else 0)"
  using reminder_mails_to_one_dispatch [of results g]
  by (simp add: daily_reminder_def) (simp add: reminder_mails_to_def)

lemma summary_mails_one_run:
  "summary_mails (snd (main_after_checks st hour today results n)) =
     (if hour = DAILY_SUMMARY_HOUR \<and> last_daily_summary st \<noteq> today then 1 else 0)"
  by (simp add: main_after_checks_unfold Let_def)

lemma reminder_mails_one_run_le:
  "distinct (map fst results) \<Longrightarrow>
     reminder_mails_to g (snd (main_after_checks st hour today results n))
       \<le> reminders_sent (snd (main_after_checks st hour today results n))"
proof -
  assume keys: "distinct (map fst results)"
  define st3 where "st3 = fst (daily_summary hour today results n
      (fst (recovery_alert (recovered_now (detect results (node_state st)))
              (st\<lparr>node_state := flags (detect results (node_state st))\<rparr>))))"
  have mails: "reminder_mails_to g (snd (main_after_checks st hour today results n))
      = reminder_mails_to g (snd (daily_reminder hour today results n st3))"
    by (simp add: main_after_checks_unfold Let_def st3_def)
  have logs: "reminders_sent (snd (main_after_checks st hour today results n))
      = reminders_sent (snd (daily_reminder hour today results n st3))"
    by (simp add: main_after_checks_unfold Let_def st3_def)
  have "reminder_mails_to g (snd (daily_reminder hour today results n st3))
      \<le> reminders_sent (snd (daily_reminder hour today results n st3))"
    using reminder_rule_mails [OF keys, of g hour today n st3] by simp
  then show ?thesis by (simp only: mails logs)
qed

subsection \<open>mails over several runs\<close>

lemma summary_mails_runs:
  "summary_mails (snd (runs today ins st)) \<le> (if last_daily_summary st = today then 0 else 1)"
proof (induction ins arbitrary: st)
  case Nil
  then show ?case by (simp add: summary_mails_def)
next
  case (Cons i rest)
  define out where "out = main_after_checks st (run_hour i) today (run_results i) (run_issues i)"
  have one: "summary_mails (snd out) =
      (if run_hour i = DAILY_SUMMARY_HOUR \<and> last_daily_summary st \<noteq> today then 1 else 0)"
    unfolding out_def by (rule summary_mails_one_run)
  have date: "last_daily_summary (fst out) =
      (if run_hour i = DAILY_SUMMARY_HOUR \<and> last_daily_summary st \<noteq> today then today
       else last_daily_summary st)"
    unfolding out_def by (rule summary_state)
  have later: "summary_mails (snd (runs today rest (fst out)))
      \<le> (if last_daily_summary (fst out) = today then 0 else 1)"
    by (rule Cons.IH)
  have "summary_mails (snd (runs today (i # rest) st))
      = summary_mails (snd out) + summary_mails (snd (runs today rest (fst out)))"
    by (simp add: runs_Cons Let_def out_def del: runs.simps)
  then show ?case using one date later by (auto split: if_splits)
qed

lemma reminder_mails_runs:
  "\<forall>i \<in> set ins. distinct (map fst (run_results i)) \<Longrightarrow>
     reminder_mails_to g (snd (runs today ins st)) \<le> reminders_sent (snd (runs today ins st))"
proof (induction ins arbitrary: st)
  case Nil
  then show ?case by (simp add: reminder_mails_to_def)
next
  case (Cons i rest)
  define out where "out = main_after_checks st (run_hour i) today (run_results i) (run_issues i)"
  have one: "reminder_mails_to g (snd out) \<le> reminders_sent (snd out)"
    unfolding out_def using Cons.prems by (intro reminder_mails_one_run_le) simp
  have later: "reminder_mails_to g (snd (runs today rest (fst out)))
      \<le> reminders_sent (snd (runs today rest (fst out)))"
    using Cons.prems by (intro Cons.IH) simp
  show ?case
    using one later by (simp add: runs_Cons Let_def out_def [symmetric] del: runs.simps)
qed

lemma recoveries_are_recovery_runs:
  "recoveries_sent (snd (runs today ins st)) = recovery_runs today ins st"
proof (induction ins arbitrary: st)
  case Nil
  then show ?case by (simp add: recoveries_sent_def)
next
  case (Cons i rest)
  show ?case
    by (simp add: runs_Cons Let_def recoveries_one_run Cons.IH del: runs.simps)
qed

section \<open>Loading the state file\<close>

lemma map_of_backfill:
  "map_of (fold (\<lambda>(k, v) d. setdefault k v d) defaults data) k =
     (case map_of data k of Some v \<Rightarrow> Some v | None \<Rightarrow> map_of defaults k)"
proof (induction defaults arbitrary: data)
  case Nil
  then show ?case by (simp split: option.splits)
next
  case (Cons p defaults)
  obtain k' v' where p: "p = (k', v')" by (cases p)
  show ?case
    by (simp add: p Cons.IH map_of_setdefault split: option.splits)
qed

lemma load_state_fallback:
  "stored dk = Missing \<or> stored dk = Unreadable \<or>
   (\<exists>text. stored dk = Contents text \<and>
      (loads text = None \<or> (\<exists>j. loads text = Some j \<and> (\<forall>data. j \<noteq> JObj data)))) \<Longrightarrow>
     load_state loads dumps dk =
       (if writable dk
        then Inr (default_state, dk\<lparr>stored := Contents (dumps (JObj default_state))\<rparr>)
        else Inl WriteFailed)"
proof -
  assume h: "stored dk = Missing \<or> stored dk = Unreadable \<or>
   (\<exists>text. stored dk = Contents text \<and>
      (loads text = None \<or> (\<exists>j. loads text = Some j \<and> (\<forall>data. j \<noteq> JObj data))))"
  have fallback: "(case save_state dumps default_state dk of
               Inl e \<Rightarrow> Inl e
             | Inr dk' \<Rightarrow> Inr (default_state, dk')) =
       (if writable dk
        then Inr (default_state, dk\<lparr>stored := Contents (dumps (JObj default_state))\<rparr>)
        else Inl WriteFailed)"
    by (simp add: save_state_def)
  from h show ?thesis
  proof (elim disjE exE conjE)
    assume "stored dk = Missing"
    then show ?thesis by (simp add: load_state_def Let_def fallback)
  next
    assume "stored dk = Unreadable"
    then show ?thesis by (simp add: load_state_def Let_def fallback)
  next
    fix body assume "stored dk = Contents body" "loads body = None"
    then show ?thesis by (simp add: load_state_def Let_def fallback)
  next
    fix body j
    assume "stored dk = Contents body" "loads body = Some j" "\<forall>data. j \<noteq> JObj data"
    then show ?thesis by (cases j) (simp_all add: load_state_def Let_def fallback)
  qed
qed

lemma load_state_object:
  "stored dk = Contents text \<Longrightarrow> loads text = Some (JObj data) \<Longrightarrow>
     load_state loads dumps dk
       = Inr (fold (\<lambda>(k, v) d. setdefault k v d) default_state data, dk)"
  by (simp add: load_state_def Let_def)

section \<open>What run_checks_once returns\<close>

lemma check_nodes_eq:
  "check_nodes nodes (rs, n) =
     (rs @ map check_node nodes,
      n + int (length (filter is_issue (map check_node nodes))))"
  by (induction nodes arbitrary: rs n) (simp_all add: Let_def)

lemma update_fresh: "k \<notin> fst ` set al \<Longrightarrow> AList.update k v al = al @ [(k, v)]"
  by (induction al) auto

lemma check_groups_step:
  "check_groups ((g, path) # rest) cfg (res, tl_issues, logs) =
     (case cfg path of
        None \<Rightarrow> check_groups rest cfg (res, tl_issues, logs @ [Log (ErrorLoading path)])
      | Some nodes \<Rightarrow>
          check_groups rest cfg
            (AList.update g
               \<lparr>rows = map check_node nodes,
                issues = int (length (filter is_issue (map check_node nodes)))\<rparr> res,
             tl_issues + int (length (filter is_issue (map check_node nodes))),
             logs @ [Log (Loaded (length nodes) g)]))"
  by (simp add: check_nodes_eq split: option.splits)

lemma check_groups_inv:
  "distinct (map fst groups) \<Longrightarrow> fst ` set res \<inter> fst ` set groups = {} \<Longrightarrow>
   (\<forall>(g, d) \<in> set res. issues d = int (length (filter is_issue (rows d)))) \<Longrightarrow>
   tl_issues = sum_list (map (\<lambda>(g, d). issues d) res) \<Longrightarrow>
   fst ` set res \<subseteq> K \<Longrightarrow> fst ` set groups \<subseteq> K \<Longrightarrow>
   check_groups groups cfg (res, tl_issues, logs) = (res', tl_issues2, logs') \<Longrightarrow>
     (\<forall>(g, d) \<in> set res'. issues d = int (length (filter is_issue (rows d)))) \<and>
     tl_issues2 = sum_list (map (\<lambda>(g, d). issues d) res') \<and>
     fst ` set res' \<subseteq> K"
proof (induction groups arbitrary: res tl_issues logs)
  case Nil
  then show ?case by auto
next
  case (Cons p rest)
  obtain g path where p: "p = (g, path)" by (cases p)
  have fresh: "g \<notin> fst ` set res" using Cons.prems(2) p by auto
  have rest_distinct: "distinct (map fst rest)" using Cons.prems(1) by simp
  have rest_K: "fst ` set rest \<subseteq> K" using Cons.prems(6) by auto
  have gK: "g \<in> K" using Cons.prems(6) p by auto
  show ?case
  proof (cases "cfg path")
    case None
    then have run: "check_groups rest cfg (res, tl_issues, logs @ [Log (ErrorLoading path)])
        = (res', tl_issues2, logs')"
      using Cons.prems(7) p by (simp add: check_groups_step del: check_groups.simps)
    have disj: "fst ` set res \<inter> fst ` set rest = {}" using Cons.prems(2) by auto
    show ?thesis
      by (rule Cons.IH [OF rest_distinct disj Cons.prems(3) Cons.prems(4) Cons.prems(5) rest_K run])
  next
    case (Some nodes)
    define d where "d = \<lparr>rows = map check_node nodes,
        issues = int (length (filter is_issue (map check_node nodes)))\<rparr>"
    define res2 where "res2 = res @ [(g, d)]"
    have upd: "AList.update g d res = res2"
      using fresh by (simp add: res2_def update_fresh)
    have run: "check_groups rest cfg
        (res2, tl_issues + issues d, logs @ [Log (Loaded (length nodes) g)]) = (res', tl_issues2, logs')"
      using Cons.prems(7) p Some upd
      by (simp add: check_groups_step d_def del: check_groups.simps)
    have disj: "fst ` set res2 \<inter> fst ` set rest = {}"
      using Cons.prems(1,2) p by (auto simp: res2_def)
    have wf: "\<forall>(g, d) \<in> set res2. issues d = int (length (filter is_issue (rows d)))"
      using Cons.prems(3) by (auto simp: res2_def d_def)
    have sum_eq: "tl_issues + issues d = sum_list (map (\<lambda>(g, d). issues d) res2)"
      using Cons.prems(4) by (simp add: res2_def)
    have K2: "fst ` set res2 \<subseteq> K" using Cons.prems(5) gK by (auto simp: res2_def)
    show ?thesis
      by (rule Cons.IH [OF rest_distinct disj wf sum_eq K2 rest_K run])
  qed
qed

lemma positive_total:
  "0 < sum_list (map (\<lambda>(g, d). issues d) res) \<Longrightarrow> \<exists>(g, d) \<in> set res. 0 < issues d"
  by (induction res) (auto simp: add_pos_nonneg split: prod.splits, force+)

lemma run_checks_once_results:
  assumes "run_checks_once cfg = (res, n, logs)"
  shows "(\<forall>(g, d) \<in> set res. issues d = int (length (filter is_issue (rows d)))) \<and>
         n = sum_list (map (\<lambda>(g, d). issues d) res) \<and>
         fst ` set res \<subseteq> fst ` set GROUPS"
proof -
  have run: "check_groups GROUPS cfg ([], 0, []) = (res, n, logs)"
    using assms by (simp add: run_checks_once_def)
  have dist: "distinct (map fst GROUPS)" by (simp add: GROUPS_def)
  show ?thesis
    by (rule check_groups_inv [OF dist _ _ _ _ _ run]) simp_all
qed

lemma group_recipients:
  "g \<in> fst ` set GROUPS \<Longrightarrow> \<exists>rcpt. map_of GROUP_EMAIL_MAP g = Some rcpt \<and> rcpt \<noteq> []"
  by (auto simp: GROUPS_def GROUP_EMAIL_MAP_def)

lemma reminder_reaches_someone:
  assumes "run_checks_once cfg = (res, n, logs)" and "0 < n"
  shows "send_group_alerts ISSUE_NOT_RESOLVED (issues_only res) \<noteq> []"
proof -
  from run_checks_once_results [OF assms(1)]
  have wf: "\<forall>(g, d) \<in> set res. issues d = int (length (filter is_issue (rows d)))"
    and sum: "n = sum_list (map (\<lambda>(g, d). issues d) res)"
    and keys: "fst ` set res \<subseteq> fst ` set GROUPS"
    by simp_all
  from positive_total assms(2) sum obtain g d where mem: "(g, d) \<in> set res" and pos: "0 < issues d"
    by blast
  have flagged: "filter is_issue (rows d) \<noteq> []"
    using wf mem pos by auto
  have "g \<in> fst ` set GROUPS" using keys mem by force
  then obtain rcpt where rc: "map_of GROUP_EMAIL_MAP g = Some rcpt" "rcpt \<noteq> []"
    using group_recipients by blast
  have "(g, \<lparr>rows = filter is_issue (rows d), issues = issues d\<rparr>) \<in> set (issues_only res)"
    unfolding set_issues_only using mem pos by force
  from send_group_alerts_complete [OF this _ rc, of ISSUE_NOT_RESOLVED] flagged
  show ?thesis by auto
qed

lemma main_unfold:
  "run_checks_once cfg = (res, n, logs) \<Longrightarrow>
     main st hour d cfg =
       (fst (main_after_checks st hour (isoformat d) res n),
        Log Started # logs @ snd (main_after_checks st hour (isoformat d) res n))"
  by (simp add: main_def Let_def case_prod_beta)

lemma check_groups_logs:
  "\<forall>e \<in> set logs. (\<exists>k g. e = Log (Loaded k g)) \<or> (\<exists>p. e = Log (ErrorLoading p)) \<Longrightarrow>
   check_groups groups cfg (res, tl_issues, logs) = (res', tl_issues2, logs') \<Longrightarrow>
     \<forall>e \<in> set logs'. (\<exists>k g. e = Log (Loaded k g)) \<or> (\<exists>p. e = Log (ErrorLoading p))"
proof (induction groups arbitrary: res tl_issues logs)
  case Nil
  then show ?case by auto
next
  case (Cons p rest)
  obtain g path where p: "p = (g, path)" by (cases p)
  show ?case
  proof (cases "cfg path")
    case None
    have run: "check_groups rest cfg (res, tl_issues, logs @ [Log (ErrorLoading path)])
        = (res', tl_issues2, logs')"
      using Cons.prems(2) p None by (simp add: check_groups_step del: check_groups.simps)
    have "\<forall>e \<in> set (logs @ [Log (ErrorLoading path)]).
        (\<exists>k g. e = Log (Loaded k g)) \<or> (\<exists>p. e = Log (ErrorLoading p))"
      using Cons.prems(1) by auto
    then show ?thesis using run by (rule Cons.IH)
  next
    case (Some nodes)
    have run: "check_groups rest cfg
        (AList.update g
           \<lparr>rows = map check_node nodes,
            issues = int (length (filter is_issue (map check_node nodes)))\<rparr> res,
         tl_issues + int (length (filter is_issue (map check_node nodes))),
         logs @ [Log (Loaded (length nodes) g)]) = (res', tl_issues2, logs')"
      using Cons.prems(2) p Some by (simp add: check_groups_step del: check_groups.simps)
    have "\<forall>e \<in> set (logs @ [Log (Loaded (length nodes) g)]).
        (\<exists>k g. e = Log (Loaded k g)) \<or> (\<exists>p. e = Log (ErrorLoading p))"
      using Cons.prems(1) by auto
    then show ?thesis using run by (rule Cons.IH)
  qed
qed

lemma run_checks_once_logs:
  assumes "run_checks_once cfg = (res, n, logs)"
  shows "filter is_reminder_mail logs = [] \<and> Log DailyReminderSent \<notin> set logs"
proof -
  have run: "check_groups GROUPS cfg ([], 0, []) = (res, n, logs)"
    using assms by (simp add: run_checks_once_def)
  have "\<forall>e \<in> set logs. (\<exists>k g. e = Log (Loaded k g)) \<or> (\<exists>p. e = Log (ErrorLoading p))"
    by (rule check_groups_logs [OF _ run]) simp
  then show ?thesis by (auto simp: filter_empty_conv)
qed

lemma main_reminder_events:
  assumes "run_checks_once cfg = (res, n, logs)"
  shows "filter is_reminder_mail (snd (main st hour d cfg))
           = filter is_reminder_mail (snd (main_after_checks st hour (isoformat d) res n))"
    and "Log DailyReminderSent \<in> set (snd (main st hour d cfg)) \<longleftrightarrow>
           Log DailyReminderSent \<in> set (snd (main_after_checks st hour (isoformat d) res n))"
    and "last_daily_reminder (fst (main st hour d cfg))
           = last_daily_reminder (fst (main_after_checks st hour (isoformat d) res n))"
    and "set (snd (main_after_checks st hour (isoformat d) res n)) \<subseteq> set (snd (main st hour d cfg))"
  using run_checks_once_logs [OF assms]
  by (auto simp: main_unfold [OF assms])

lemma reminder_mail_exists:
  assumes "run_checks_once cfg = (res, n, logs)" and "0 < n"
  shows "\<exists>g dt rcpt. (g, dt) \<in> set res \<and> 0 < issues dt \<and>
           map_of GROUP_EMAIL_MAP g = Some rcpt \<and>
           Email (GroupSubject ISSUE_NOT_RESOLVED g)
             (build_report_html [(g, \<lparr>rows = filter is_issue (rows dt), issues = issues dt\<rparr>)]
                (issues dt))
             (Some rcpt) \<in> set (send_group_alerts ISSUE_NOT_RESOLVED (issues_only res))"
proof -
  from run_checks_once_results [OF assms(1)]
  have wf: "\<forall>(g, d) \<in> set res. issues d = int (length (filter is_issue (rows d)))"
    and sum: "n = sum_list (map (\<lambda>(g, d). issues d) res)"
    and keys: "fst ` set res \<subseteq> fst ` set GROUPS"
    by simp_all
  from positive_total assms(2) sum obtain g dt where mem: "(g, dt) \<in> set res"
    and pos: "0 < issues dt"
    by blast
  have flagged: "filter is_issue (rows dt) \<noteq> []"
    using wf mem pos by auto
  have "g \<in> fst ` set GROUPS" using keys mem by force
  then obtain rcpt where rc: "map_of GROUP_EMAIL_MAP g = Some rcpt" "rcpt \<noteq> []"
    using group_recipients by blast
  have "(g, \<lparr>rows = filter is_issue (rows dt), issues = issues dt\<rparr>) \<in> set (issues_only res)"
    unfolding set_issues_only using mem pos by force
  from send_group_alerts_complete [OF this _ rc, of ISSUE_NOT_RESOLVED] flagged
  have "Email (GroupSubject ISSUE_NOT_RESOLVED g)
             (build_report_html [(g, \<lparr>rows = filter is_issue (rows dt), issues = issues dt\<rparr>)]
                (issues dt))
             (Some rcpt) \<in> set (send_group_alerts ISSUE_NOT_RESOLVED (issues_only res))"
    by simp
  with mem pos rc(1) show ?thesis by blast
qed

section \<open>Facts about the sample rows\<close>

lemma is_issue_probe_row [simp]: "is_issue (probe_row nm bad) = bad"
  by (simp add: probe_row_def check_node_def get_or_def)

lemma name_probe_row [simp]: "name (probe_row nm bad) = nm"
  by (simp add: probe_row_def check_node_def get_or_def)

lemma sample_detect:
  "detect [(''G'', \<lparr>rows = [probe_row ''a'' False, probe_row ''a'' True], issues = 1\<rparr>)] []
     = \<lparr>flags = [(''G:a'', True)],
        down_now = [(''G'', \<lparr>rows = [probe_row ''a'' True], issues = 1\<rparr>)],
        recovered_now = []\<rparr>"
  by (simp add: detect_def loop_start_def detect_row_def node_key_def Let_def setdefault_def
      append_row_def incr_issues_def no_rows_def)

lemma is_issue_unnamed_row [simp]: "is_issue (unnamed_row bad) = bad"
  by (simp add: unnamed_row_def check_node_def get_or_def)

lemma name_unnamed_row [simp]: "name (unnamed_row bad) = ''''"
  by (simp add: unnamed_row_def check_node_def get_or_def)

lemma sample_recovery:
  "detect [(''NIS Servers'', \<lparr>rows = [probe_row ''n1'' False, probe_row ''n2'' False], issues = 0\<rparr>)]
      [(''NIS Servers:n1'', True), (''NIS Servers:n2'', True)]
     = \<lparr>flags = [(''NIS Servers:n1'', False), (''NIS Servers:n2'', False)],
        down_now = [],
        recovered_now =
          [(''NIS Servers'', \<lparr>rows = [probe_row ''n1'' False, probe_row ''n2'' False], issues = 0\<rparr>)]\<rparr>"
  by (simp add: detect_def loop_start_def detect_row_def node_key_def Let_def setdefault_def
      append_row_def incr_issues_def no_rows_def)

lemmas detect_eval = detect_def loop_start_def detect_row_def node_key_def Let_def setdefault_def
  append_row_def incr_issues_def no_rows_def

lemma detect_both_down:
  "detect both_down [(''NIS Servers:n1'', True), (''NIS Servers:n2'', True)]
     = \<lparr>flags = [(''NIS Servers:n1'', True), (''NIS Servers:n2'', True)],
        down_now = [], recovered_now = []\<rparr>"
  by (simp add: both_down_def detect_eval)

lemma detect_one_back:
  "detect one_back [(''NIS Servers:n1'', True), (''NIS Servers:n2'', True)]
     = \<lparr>flags = [(''NIS Servers:n1'', False), (''NIS Servers:n2'', True)],
        down_now = [],
        recovered_now = [(''NIS Servers'', \<lparr>rows = [probe_row ''n1'' False], issues = 0\<rparr>)]\<rparr>"
  by (simp add: one_back_def detect_eval)

lemma isoformat_sample: "isoformat \<lparr>year = 2024, month = 3, day = 15\<rparr> = ''2024-03-15''"
  by (simp add: isoformat_def zfill_def digits.simps)

lemma distinct_samples [simp]:
  "distinct (map fst both_down)" "distinct (map fst one_back)"
  by (simp_all add: both_down_def one_back_def)

lemma nis_recipients:
  "map_of GROUP_EMAIL_MAP ''NIS Servers''
     = Some [''dhyann@iisc.ac.in'', ''shivaprasadl@iisc.ac.in'', ''manjulap@iisc.ac.in'']"
  by (simp add: GROUP_EMAIL_MAP_def)

lemma reminder_run_both_down:
  "main_after_checks (both_known_down '''') DAILY_REMINDER_HOUR ''2024-01-15'' both_down 2 =
     (\<lparr>node_state = [(''NIS Servers:n1'', True), (''NIS Servers:n2'', True)],
       last_daily_summary = '''', last_daily_reminder = ''2024-01-15''\<rparr>,
      [Email (GroupSubject ISSUE_NOT_RESOLVED ''NIS Servers'')
         (build_report_html both_down 2)
         (Some [''dhyann@iisc.ac.in'', ''shivaprasadl@iisc.ac.in'', ''manjulap@iisc.ac.in'']),
       Log DailyReminderSent])"
  by (simp add: main_after_checks_unfold Let_def both_known_down_def detect_both_down
      down_alert_def recovery_alert_def daily_summary_def daily_reminder_def
      DAILY_SUMMARY_HOUR_def DAILY_REMINDER_HOUR_def issues_only_def GROUP_EMAIL_MAP_def)
    (simp add: both_down_def nis_recipients)

lemma reminder_run_one_back:
  "main_after_checks
     \<lparr>node_state = [(''NIS Servers:n1'', True), (''NIS Servers:n2'', True)],
      last_daily_summary = '''', last_daily_reminder = ''2024-01-15''\<rparr>
     DAILY_REMINDER_HOUR ''2024-01-15'' one_back 1 =
     (\<lparr>node_state = [(''NIS Servers:n1'', False), (''NIS Servers:n2'', True)],
       last_daily_summary = '''', last_daily_reminder = ''2024-01-15''\<rparr>,
      [Email (GroupSubject NODE_BACK_ONLINE ''NIS Servers'')
         (build_report_html
            [(''NIS Servers'', \<lparr>rows = [probe_row ''n1'' False], issues = 0\<rparr>)] 0)
         (Some [''dhyann@iisc.ac.in'', ''shivaprasadl@iisc.ac.in'', ''manjulap@iisc.ac.in'']),
       Log (RecoveryAlertSent 1),
       Email (GroupSubject ISSUE_NOT_RESOLVED ''NIS Servers'')
         (build_report_html
            [(''NIS Servers'', \<lparr>rows = [probe_row ''n2'' True], issues = 1\<rparr>)] 1)
         (Some [''dhyann@iisc.ac.in'', ''shivaprasadl@iisc.ac.in'', ''manjulap@iisc.ac.in'']),
       Log DailyReminderSent])"
  by (simp add: main_after_checks_unfold Let_def detect_one_back
      down_alert_def recovery_alert_def daily_summary_def daily_reminder_def count_rows_def
      DAILY_SUMMARY_HOUR_def DAILY_REMINDER_HOUR_def issues_only_def GROUP_EMAIL_MAP_def)
    (simp add: one_back_def nis_recipients)

lemma two_reminder_runs:
  "snd (runs ''2024-01-15''
      [\<lparr>run_hour = DAILY_REMINDER_HOUR, run_results = both_down, run_issues = 2\<rparr>,
       \<lparr>run_hour = DAILY_REMINDER_HOUR, run_results = one_back, run_issues = 1\<rparr>]
      (both_known_down '''')) =
     [Email (GroupSubject ISSUE_NOT_RESOLVED ''NIS Servers'')
         (build_report_html both_down 2)
         (Some [''dhyann@iisc.ac.in'', ''shivaprasadl@iisc.ac.in'', ''manjulap@iisc.ac.in'']),
      Log DailyReminderSent,
      Email (GroupSubject NODE_BACK_ONLINE ''NIS Servers'')
         (build_report_html
            [(''NIS Servers'', \<lparr>rows = [probe_row ''n1'' False], issues = 0\<rparr>)] 0)
         (Some [''dhyann@iisc.ac.in'', ''shivaprasadl@iisc.ac.in'', ''manjulap@iisc.ac.in'']),
      Log (RecoveryAlertSent 1),
      Email (GroupSubject ISSUE_NOT_RESOLVED ''NIS Servers'')
         (build_report_html
            [(''NIS Servers'', \<lparr>rows = [probe_row ''n2'' True], issues = 1\<rparr>)] 1)
         (Some [''dhyann@iisc.ac.in'', ''shivaprasadl@iisc.ac.in'', ''manjulap@iisc.ac.in'']),
      Log DailyReminderSent]"
  by (simp add: reminder_run_both_down reminder_run_one_back)

lemma two_reminder_runs_recoveries:
  "recovery_runs ''2024-01-15''
      [\<lparr>run_hour = DAILY_REMINDER_HOUR, run_results = both_down, run_issues = 2\<rparr>,
       \<lparr>run_hour = DAILY_REMINDER_HOUR, run_results = one_back, run_issues = 1\<rparr>]
      (both_known_down '''') = 1"
  by (simp add: reminder_run_both_down detect_one_back)
    (simp add: both_known_down_def detect_both_down)

lemma summary_run_both_down:
  "main_after_checks (both_known_down '''') DAILY_SUMMARY_HOUR ''2024-01-15'' both_down 2 =
     (\<lparr>node_state = [(''NIS Servers:n1'', True), (''NIS Servers:n2'', True)],
       last_daily_summary = ''2024-01-15'', last_daily_reminder = ''''\<rparr>,
      [Email DAILY_SUMMARY (build_report_html both_down 2) None, Log DailySummarySent])"
  by (simp add: main_after_checks_unfold Let_def both_known_down_def detect_both_down
      down_alert_def recovery_alert_def daily_summary_def daily_reminder_def
      DAILY_SUMMARY_HOUR_def DAILY_REMINDER_HOUR_def)

lemma summary_run_again:
  "main_after_checks
     \<lparr>node_state = [(''NIS Servers:n1'', True), (''NIS Servers:n2'', True)],
      last_daily_summary = ''2024-01-15'', last_daily_reminder = ''''\<rparr>
     DAILY_SUMMARY_HOUR ''2024-01-15'' both_down 2 =
     (\<lparr>node_state = [(''NIS Servers:n1'', True), (''NIS Servers:n2'', True)],
       last_daily_summary = ''2024-01-15'', last_daily_reminder = ''''\<rparr>, [])"
  by (simp add: main_after_checks_unfold Let_def detect_both_down
      down_alert_def recovery_alert_def daily_summary_def daily_reminder_def
      DAILY_SUMMARY_HOUR_def DAILY_REMINDER_HOUR_def)

lemma two_summary_runs:
  "snd (runs ''2024-01-15''
      [\<lparr>run_hour = DAILY_SUMMARY_HOUR, run_results = both_down, run_issues = 2\<rparr>,
       \<lparr>run_hour = DAILY_SUMMARY_HOUR, run_results = both_down, run_issues = 2\<rparr>]
      (both_known_down '''')) =
     [Email DAILY_SUMMARY (build_report_html both_down 2) None, Log DailySummarySent]"
  by (simp add: summary_run_both_down summary_run_again)

lemma check_probe_node: "check_node (probe_node nm bad) = probe_row nm bad"
  by (simp add: probe_node_def probe_row_def)

lemma run_nis_only:
  "run_checks_once nis_only =
     (one_back, 1,
      [Log (ErrorLoading ''config/cluster_nodes.json''),
       Log (ErrorLoading ''config/dgx_nodes.json''),
       Log (ErrorLoading ''config/license_servers.json''),
       Log (Loaded 2 ''NIS Servers'')])"
  by (simp add: run_checks_once_def GROUPS_def nis_only_def check_groups_step check_probe_node
      one_back_def del: check_groups.simps(2))

section \<open>Claims about transition detection\<close>

text \<open>
  C1. A row whose key is in the persisted map is classified by the pair of the flag found
  at its lookup and its current flag. Let the loop reach the row \<open>r\<close> of group \<open>g\<close> after
  the visits \<open>pre\<close>, with the key of \<open>r\<close> in the loaded map \<open>ns\<close>. Then the lookup finds a
  flag \<open>prev\<close>, and: for (false, true) the row is appended to the rows of \<open>g\<close> in
  \<^verbatim>\<open>down_now\<close>, nothing else changes in the two dictionaries, and the row is in
  \<^verbatim>\<open>down_now\<close> when the loop ends; for (true, false) the same holds of
  \<^verbatim>\<open>recovered_now\<close>; for (false, false) and (true, true) neither dictionary changes.
\<close>

theorem transition_classification:
  assumes "visits results = pre @ (g, r) # post"
    and "map_of ns (node_key g r) = Some p0"
  shows "\<exists>prev. map_of (flags (detect_visits pre (loop_start ns))) (node_key g r) = Some prev \<and>
     detect results ns = detect_visits post (detect_row g r (detect_visits pre (loop_start ns))) \<and>
     (let before = detect_visits pre (loop_start ns);
          after = detect_row g r before;
          final = detect results ns
      in if \<not> prev \<and> is_issue r
         then alert_rows (down_now after) g = alert_rows (down_now before) g @ [r] \<and>
              (\<forall>g'. g' \<noteq> g \<longrightarrow> alert_rows (down_now after) g' = alert_rows (down_now before) g') \<and>
              recovered_now after = recovered_now before \<and>
              r \<in> set (alert_rows (down_now final) g)
         else if prev \<and> \<not> is_issue r
         then alert_rows (recovered_now after) g = alert_rows (recovered_now before) g @ [r] \<and>
              (\<forall>g'. g' \<noteq> g \<longrightarrow>
                 alert_rows (recovered_now after) g' = alert_rows (recovered_now before) g') \<and>
              down_now after = down_now before \<and>
              r \<in> set (alert_rows (recovered_now final) g)
         else down_now after = down_now before \<and> recovered_now after = recovered_now before)"
proof -
  define before where "before = detect_visits pre (loop_start ns)"
  define after where "after = detect_row g r before"
  have "map_of (flags (loop_start ns)) (node_key g r) = Some p0"
    using assms(2) by (simp add: loop_start_def)
  then obtain prev where prev: "map_of (flags before) (node_key g r) = Some prev"
    unfolding before_def using flag_known_after by blast
  have final: "detect results ns = detect_visits post after"
    unfolding after_def before_def using assms(1) by (rule detect_split)
  have down: "\<not> prev \<and> is_issue r \<Longrightarrow>
      alert_rows (down_now after) g = alert_rows (down_now before) g @ [r] \<and>
      (\<forall>g'. g' \<noteq> g \<longrightarrow> alert_rows (down_now after) g' = alert_rows (down_now before) g') \<and>
      recovered_now after = recovered_now before"
    using prev by (simp add: after_def down_now_detect_row recovered_now_detect_row
        alert_rows_added_down)
  have down_final: "\<not> prev \<and> is_issue r \<Longrightarrow> r \<in> set (alert_rows (down_now (detect results ns)) g)"
    using down down_rows_kept [of after g post] final by auto
  have rec: "prev \<and> \<not> is_issue r \<Longrightarrow>
      alert_rows (recovered_now after) g = alert_rows (recovered_now before) g @ [r] \<and>
      (\<forall>g'. g' \<noteq> g \<longrightarrow>
         alert_rows (recovered_now after) g' = alert_rows (recovered_now before) g') \<and>
      down_now after = down_now before"
    using prev by (simp add: after_def down_now_detect_row recovered_now_detect_row
        alert_rows_added_recovered)
  have rec_final: "prev \<and> \<not> is_issue r \<Longrightarrow>
      r \<in> set (alert_rows (recovered_now (detect results ns)) g)"
    using rec recovered_rows_kept [of after g post] final by auto
  have none: "\<not> (\<not> prev \<and> is_issue r) \<Longrightarrow> \<not> (prev \<and> \<not> is_issue r) \<Longrightarrow>
      down_now after = down_now before \<and> recovered_now after = recovered_now before"
    using prev by (auto simp: after_def down_now_detect_row recovered_now_detect_row)
  show ?thesis
    using prev final down down_final rec rec_final none
    unfolding Let_def before_def [symmetric] after_def [symmetric]
    by (intro exI [of _ prev]) auto
qed

theorem transition_classification_witness:
  "visits [(''G'', \<lparr>rows = [probe_row ''n1'' True], issues = 1\<rparr>)]
     = [] @ (''G'', probe_row ''n1'' True) # [] \<and>
   map_of [(''G:n1'', False)] (node_key ''G'' (probe_row ''n1'' True)) = Some False \<and>
   probe_row ''n1'' True \<in> set (alert_rows (down_now
     (detect [(''G'', \<lparr>rows = [probe_row ''n1'' True], issues = 1\<rparr>)] [(''G:n1'', False)])) ''G'')"
proof -
  have h1: "visits [(''G'', \<lparr>rows = [probe_row ''n1'' True], issues = 1\<rparr>)]
     = [] @ (''G'', probe_row ''n1'' True) # []"
    by (simp add: visits_def)
  have h2: "map_of [(''G:n1'', False)] (node_key ''G'' (probe_row ''n1'' True)) = Some False"
    by (simp add: node_key_def)
  show ?thesis
    using h1 h2 transition_classification [OF h1 h2]
    by (auto simp: loop_start_def Let_def)
qed

text \<open>
  C2. A row whose key is absent from the map when it is looked up is a first observation:
  the loop body stores the row's current flag under the key and leaves \<^verbatim>\<open>down_now\<close> and
  \<^verbatim>\<open>recovered_now\<close> as they were, whatever the flag is.
\<close>

theorem first_observation_never_alerts:
  assumes "visits results = pre @ (g, r) # post"
    and "map_of (flags (detect_visits pre (loop_start ns))) (node_key g r) = None"
  shows "let before = detect_visits pre (loop_start ns);
             after = detect_row g r before
         in detect results ns = detect_visits post after \<and>
            after = before\<lparr>flags := AList.update (node_key g r) (is_issue r) (flags before)\<rparr> \<and>
            map_of (flags after) (node_key g r) = Some (is_issue r) \<and>
            down_now after = down_now before \<and>
            recovered_now after = recovered_now before"
  using assms detect_split [OF assms(1), of ns]
  by (simp add: Let_def detect_row_def update_conv')

theorem first_observation_never_alerts_witness:
  "visits [(''G'', \<lparr>rows = [probe_row ''n1'' True], issues = 1\<rparr>)]
     = [] @ (''G'', probe_row ''n1'' True) # [] \<and>
   map_of (flags (detect_visits [] (loop_start []))) (node_key ''G'' (probe_row ''n1'' True))
     = None \<and>
   detect [(''G'', \<lparr>rows = [probe_row ''n1'' True], issues = 1\<rparr>)] []
     = \<lparr>flags = [(''G:n1'', True)], down_now = [], recovered_now = []\<rparr>"
proof -
  have h1: "visits [(''G'', \<lparr>rows = [probe_row ''n1'' True], issues = 1\<rparr>)]
     = [] @ (''G'', probe_row ''n1'' True) # []"
    by (simp add: visits_def)
  have h2: "map_of (flags (detect_visits [] (loop_start [])))
      (node_key ''G'' (probe_row ''n1'' True)) = None"
    by (simp add: loop_start_def)
  show ?thesis
    using h1 h2 first_observation_never_alerts [OF h1 h2]
    by (simp add: loop_start_def Let_def node_key_def)
qed

text \<open>
  C6 (as amended). After the loop every key of the loaded map is still a key of the map.
  For a visited row the map holds the row's current flag provided no row visited later in
  the run has the same key with a different flag; in particular it holds for every row
  when the keys of the run are pairwise distinct. The branch taken plays no part.
\<close>

theorem flags_after_run:
  "fst ` set ns \<subseteq> fst ` set (flags (detect results ns)) \<and>
   (visits results = pre @ (g, r) # post \<and>
    (\<forall>(g', r') \<in> set post. node_key g' r' = node_key g r \<longrightarrow> is_issue r' = is_issue r)
    \<longrightarrow> map_of (flags (detect results ns)) (node_key g r) = Some (is_issue r))"
proof (intro conjI impI)
  show "fst ` set ns \<subseteq> fst ` set (flags (detect results ns))"
    by (rule keys_kept)
next
  assume h: "visits results = pre @ (g, r) # post \<and>
    (\<forall>(g', r') \<in> set post. node_key g' r' = node_key g r \<longrightarrow> is_issue r' = is_issue r)"
  show "map_of (flags (detect results ns)) (node_key g r) = Some (is_issue r)"
    using h flag_after_visit [of results pre g r post ns] by (elim conjE) (rule flag_after_visit)
qed

theorem flags_after_run_witness:
  "visits [(''G'', \<lparr>rows = [probe_row ''a'' False, probe_row ''a'' True], issues = 1\<rparr>)]
     = [(''G'', probe_row ''a'' False)] @ (''G'', probe_row ''a'' True) # [] \<and>
   fst ` set [(''H:b'', False)] \<subseteq> fst ` set (flags (detect
       [(''G'', \<lparr>rows = [probe_row ''a'' False, probe_row ''a'' True], issues = 1\<rparr>)]
       [(''H:b'', False)])) \<and>
   map_of (flags (detect
       [(''G'', \<lparr>rows = [probe_row ''a'' False, probe_row ''a'' True], issues = 1\<rparr>)]
       [(''H:b'', False)])) ''G:a'' = Some True"
proof -
  have h1: "visits [(''G'', \<lparr>rows = [probe_row ''a'' False, probe_row ''a'' True], issues = 1\<rparr>)]
     = [(''G'', probe_row ''a'' False)] @ (''G'', probe_row ''a'' True) # []"
    by (simp add: visits_def)
  have h2: "\<forall>(g', r') \<in> set []. node_key g' r' = node_key ''G'' (probe_row ''a'' True)
       \<longrightarrow> is_issue r' = is_issue (probe_row ''a'' True)"
    by simp
  show ?thesis
    using h1 h2 flags_after_run [of "[(''H:b'', False)]"
        "[(''G'', \<lparr>rows = [probe_row ''a'' False, probe_row ''a'' True], issues = 1\<rparr>)]"
        "[(''G'', probe_row ''a'' False)]" "''G''" "probe_row ''a'' True" "[]"]
    by (simp add: node_key_def)
qed

text \<open>
  C6 as stated fails when two rows of a run share a key: with rows named \<open>a\<close>, the first
  healthy and the second impaired, the map ends with the second row's flag, which is not
  the first row's.
\<close>

theorem flags_after_run_counterexample:
  "(''G'', probe_row ''a'' False)
     \<in> set (visits [(''G'', \<lparr>rows = [probe_row ''a'' False, probe_row ''a'' True], issues = 1\<rparr>)]) \<and>
   map_of (flags (detect
       [(''G'', \<lparr>rows = [probe_row ''a'' False, probe_row ''a'' True], issues = 1\<rparr>)] []))
     (node_key ''G'' (probe_row ''a'' False)) \<noteq> Some (is_issue (probe_row ''a'' False))"
  by (simp add: sample_detect visits_def node_key_def)

text \<open>
  C7 (as amended). When rows of the run that share a key have equal flags (in particular
  when the keys are pairwise distinct), a second pass over the same results, started from
  the flags the first pass produced, leaves \<^verbatim>\<open>down_now\<close> and \<^verbatim>\<open>recovered_now\<close> empty and
  the flags unchanged.
\<close>

theorem rerun_quiet:
  assumes "\<forall>(g1, r1) \<in> set (visits results). \<forall>(g2, r2) \<in> set (visits results).
             node_key g1 r1 = node_key g2 r2 \<longrightarrow> is_issue r1 = is_issue r2"
  shows "down_now (detect results (flags (detect results ns))) = [] \<and>
         recovered_now (detect results (flags (detect results ns))) = [] \<and>
         flags (detect results (flags (detect results ns))) = flags (detect results ns)"
  using rerun_fixed [OF assms, of ns] by (simp add: loop_start_def)

theorem rerun_quiet_witness:
  "down_now (detect [(''G'', \<lparr>rows = [probe_row ''a'' True, probe_row ''b'' False], issues = 1\<rparr>)]
     (flags (detect [(''G'', \<lparr>rows = [probe_row ''a'' True, probe_row ''b'' False], issues = 1\<rparr>)]
        [(''G:a'', False), (''G:b'', True)]))) = [] \<and>
   recovered_now (detect [(''G'', \<lparr>rows = [probe_row ''a'' True, probe_row ''b'' False], issues = 1\<rparr>)]
     (flags (detect [(''G'', \<lparr>rows = [probe_row ''a'' True, probe_row ''b'' False], issues = 1\<rparr>)]
        [(''G:a'', False), (''G:b'', True)]))) = [] \<and>
   down_now (detect [(''G'', \<lparr>rows = [probe_row ''a'' True, probe_row ''b'' False], issues = 1\<rparr>)]
        [(''G:a'', False), (''G:b'', True)])
     = [(''G'', \<lparr>rows = [probe_row ''a'' True], issues = 1\<rparr>)] \<and>
   recovered_now (detect [(''G'', \<lparr>rows = [probe_row ''a'' True, probe_row ''b'' False], issues = 1\<rparr>)]
        [(''G:a'', False), (''G:b'', True)])
     = [(''G'', \<lparr>rows = [probe_row ''b'' False], issues = 0\<rparr>)]"
proof -
  have h: "\<forall>(g1, r1) \<in> set (visits [(''G'', \<lparr>rows = [probe_row ''a'' True, probe_row ''b'' False], issues = 1\<rparr>)]).
    \<forall>(g2, r2) \<in> set (visits [(''G'', \<lparr>rows = [probe_row ''a'' True, probe_row ''b'' False], issues = 1\<rparr>)]).
      node_key g1 r1 = node_key g2 r2 \<longrightarrow> is_issue r1 = is_issue r2"
    by (simp add: visits_def node_key_def)
  have first: "detect [(''G'', \<lparr>rows = [probe_row ''a'' True, probe_row ''b'' False], issues = 1\<rparr>)]
        [(''G:a'', False), (''G:b'', True)]
     = \<lparr>flags = [(''G:a'', True), (''G:b'', False)],
        down_now = [(''G'', \<lparr>rows = [probe_row ''a'' True], issues = 1\<rparr>)],
        recovered_now = [(''G'', \<lparr>rows = [probe_row ''b'' False], issues = 0\<rparr>)]\<rparr>"
    by (simp add: detect_def loop_start_def detect_row_def node_key_def Let_def setdefault_def
        append_row_def incr_issues_def no_rows_def)
  show ?thesis
    using rerun_quiet [OF h, of "[(''G:a'', False), (''G:b'', True)]"] first by simp
qed

text \<open>
  C7 as stated fails when two rows share a key with different flags: the second pass over
  the rows named \<open>a\<close>, healthy then impaired, reports the first as recovered and the
  second as down.
\<close>

theorem rerun_counterexample:
  "down_now (detect
      [(''G'', \<lparr>rows = [probe_row ''a'' False, probe_row ''a'' True], issues = 1\<rparr>)]
      (flags (detect
         [(''G'', \<lparr>rows = [probe_row ''a'' False, probe_row ''a'' True], issues = 1\<rparr>)] [])))
     = [(''G'', \<lparr>rows = [probe_row ''a'' True], issues = 1\<rparr>)] \<and>
   recovered_now (detect
      [(''G'', \<lparr>rows = [probe_row ''a'' False, probe_row ''a'' True], issues = 1\<rparr>)]
      (flags (detect
         [(''G'', \<lparr>rows = [probe_row ''a'' False, probe_row ''a'' True], issues = 1\<rparr>)] [])))
     = [(''G'', \<lparr>rows = [probe_row ''a'' False], issues = 0\<rparr>)]"
  by (simp add: sample_detect)
    (simp add: detect_def loop_start_def detect_row_def node_key_def Let_def setdefault_def
      append_row_def incr_issues_def no_rows_def)

text \<open>
  C9. When the loop ends, every entry of \<^verbatim>\<open>down_now\<close> has \<^verbatim>\<open>issues\<close> equal to the number
  of its rows, and every entry of \<^verbatim>\<open>recovered_now\<close> has \<^verbatim>\<open>issues\<close> equal to 0 whatever
  the number of its rows. So every recovery mail carries a report built with an issue
  count of 0: it shows 0 issues for the group under the banner for a healthy system.
\<close>

theorem alert_issue_counts:
  "(\<forall>(g, d) \<in> set (down_now (detect results ns)). issues d = int (length (rows d))) \<and>
   (\<forall>(g, d) \<in> set (recovered_now (detect results ns)). issues d = 0) \<and>
   (\<forall>e \<in> set (send_group_alerts NODE_BACK_ONLINE (recovered_now (detect results ns))).
      \<exists>g d rcpt. (g, d) \<in> set (recovered_now (detect results ns)) \<and>
        e = Email (GroupSubject NODE_BACK_ONLINE g) (build_report_html [(g, d)] 0) (Some rcpt) \<and>
        issues_shown (build_report_html [(g, d)] 0) = 0 \<and>
        banner (build_report_html [(g, d)] 0) = ALL_SYSTEMS_HEALTHY \<and>
        sections (build_report_html [(g, d)] 0) = [(g, d)] \<and> issues d = 0)"
proof (intro conjI)
  show "\<forall>(g, d) \<in> set (down_now (detect results ns)). issues d = int (length (rows d))"
    using down_counts by blast
  show "\<forall>(g, d) \<in> set (recovered_now (detect results ns)). issues d = 0"
    using recovered_counts by blast
  show "\<forall>e \<in> set (send_group_alerts NODE_BACK_ONLINE (recovered_now (detect results ns))).
      \<exists>g d rcpt. (g, d) \<in> set (recovered_now (detect results ns)) \<and>
        e = Email (GroupSubject NODE_BACK_ONLINE g) (build_report_html [(g, d)] 0) (Some rcpt) \<and>
        issues_shown (build_report_html [(g, d)] 0) = 0 \<and>
        banner (build_report_html [(g, d)] 0) = ALL_SYSTEMS_HEALTHY \<and>
        sections (build_report_html [(g, d)] 0) = [(g, d)] \<and> issues d = 0"
  proof
  fix e
  assume "e \<in> set (send_group_alerts NODE_BACK_ONLINE (recovered_now (detect results ns)))"
  then obtain g d rcpt where mem: "(g, d) \<in> set (recovered_now (detect results ns))"
    and e: "e = Email (GroupSubject NODE_BACK_ONLINE g)
                  (build_report_html [(g, d)] (issues d)) (Some rcpt)"
    using send_group_alerts_mail by blast
  have zero: "issues d = 0" using mem by (rule recovered_counts)
  show "\<exists>g d rcpt. (g, d) \<in> set (recovered_now (detect results ns)) \<and>
        e = Email (GroupSubject NODE_BACK_ONLINE g) (build_report_html [(g, d)] 0) (Some rcpt) \<and>
        issues_shown (build_report_html [(g, d)] 0) = 0 \<and>
        banner (build_report_html [(g, d)] 0) = ALL_SYSTEMS_HEALTHY \<and>
        sections (build_report_html [(g, d)] 0) = [(g, d)] \<and> issues d = 0"
    using mem e zero by (intro exI [of _ g] exI [of _ d] exI [of _ rcpt])
      (simp add: build_report_html_def)
  qed
qed

theorem alert_issue_counts_witness:
  "(''NIS Servers'', \<lparr>rows = [probe_row ''n1'' False, probe_row ''n2'' False], issues = 0\<rparr>)
     \<in> set (recovered_now (detect
         [(''NIS Servers'', \<lparr>rows = [probe_row ''n1'' False, probe_row ''n2'' False], issues = 0\<rparr>)]
         [(''NIS Servers:n1'', True), (''NIS Servers:n2'', True)])) \<and>
   issues \<lparr>rows = [probe_row ''n1'' False, probe_row ''n2'' False], issues = 0\<rparr> = 0 \<and>
   length (rows \<lparr>rows = [probe_row ''n1'' False, probe_row ''n2'' False], issues = 0\<rparr>) = 2"
  using alert_issue_counts
    [of "[(''NIS Servers'', \<lparr>rows = [probe_row ''n1'' False, probe_row ''n2'' False], issues = 0\<rparr>)]"
        "[(''NIS Servers:n1'', True), (''NIS Servers:n2'', True)]"]
  by (simp add: sample_recovery)

text \<open>
  C10. Two rows of one group with equal names have the same key. Let both be visited in
  one run, the earlier one as a first observation and healthy, the later one impaired,
  with no row of that key between them. Then the later row's lookup finds the flag the
  earlier row stored, the later row is appended to \<^verbatim>\<open>down_now\<close> for its group, and the
  key holds the later row's flag; it still does when the loop ends if no row of that key
  follows.
\<close>

theorem shared_key_first_run:
  assumes "visits results = pre @ (g, r1) # mid @ (g, r2) # post"
    and "name r1 = name r2"
    and "\<forall>(g', r') \<in> set mid. node_key g' r' \<noteq> node_key g r1"
    and "map_of (flags (detect_visits pre (loop_start ns))) (node_key g r1) = None"
    and "\<not> is_issue r1" and "is_issue r2"
  shows "node_key g r1 = node_key g r2 \<and>
     (let before = detect_visits pre (loop_start ns);
          seen = detect_visits mid (detect_row g r1 before);
          after = detect_row g r2 seen
      in detect results ns = detect_visits post after \<and>
         down_now (detect_row g r1 before) = down_now before \<and>
         map_of (flags seen) (node_key g r2) = Some (is_issue r1) \<and>
         alert_rows (down_now after) g = alert_rows (down_now seen) g @ [r2] \<and>
         map_of (flags after) (node_key g r2) = Some (is_issue r2) \<and>
         r2 \<in> set (alert_rows (down_now (detect results ns)) g) \<and>
         ((\<forall>(g', r') \<in> set post. node_key g' r' \<noteq> node_key g r2) \<longrightarrow>
            map_of (flags (detect results ns)) (node_key g r2) = Some (is_issue r2)))"
proof -
  define before where "before = detect_visits pre (loop_start ns)"
  define seen where "seen = detect_visits mid (detect_row g r1 before)"
  define after where "after = detect_row g r2 seen"
  have key: "node_key g r1 = node_key g r2"
    using assms(2) by (simp add: node_key_def)
  have sp: "visits results = (pre @ (g, r1) # mid) @ (g, r2) # post"
    using assms(1) by simp
  have seen_eq: "detect_visits (pre @ (g, r1) # mid) (loop_start ns) = seen"
    by (simp add: seen_def before_def detect_visits_append)
  have final: "detect results ns = detect_visits post after"
    using detect_split [OF sp, of ns] by (simp add: seen_eq after_def)
  have first: "down_now (detect_row g r1 before) = down_now before"
    using assms(4) by (simp add: down_now_detect_row before_def)
  have "map_of (flags seen) (node_key g r1) = map_of (flags (detect_row g r1 before)) (node_key g r1)"
    unfolding seen_def using assms(3) by (rule map_of_flags_unvisited)
  then have prev: "map_of (flags seen) (node_key g r2) = Some (is_issue r1)"
    by (simp add: map_of_flags_detect_row key)
  have down: "alert_rows (down_now after) g = alert_rows (down_now seen) g @ [r2]"
    using prev assms(5,6) by (simp add: after_def down_now_detect_row alert_rows_added_down)
  have stored: "map_of (flags after) (node_key g r2) = Some (is_issue r2)"
    by (simp add: after_def map_of_flags_detect_row)
  have "r2 \<in> set (alert_rows (down_now after) g)"
    using down by simp
  then have kept: "r2 \<in> set (alert_rows (down_now (detect results ns)) g)"
    using down_rows_kept [of after g post] final by auto
  have last: "map_of (flags (detect results ns)) (node_key g r2) = Some (is_issue r2)"
    if "\<forall>(g', r') \<in> set post. node_key g' r' \<noteq> node_key g r2"
  proof -
    have "\<forall>(g', r') \<in> set post. node_key g' r' = node_key g r2 \<longrightarrow> is_issue r' = is_issue r2"
      using that by fastforce
    with sp show ?thesis by (rule flag_after_visit)
  qed
  show ?thesis
    using key final first prev down stored kept last
    unfolding Let_def before_def [symmetric] seen_def [symmetric] after_def [symmetric]
    by blast
qed

text \<open>
  An instance with two configuration entries that have no \<^verbatim>\<open>name\<close> key: both rows get
  the empty name and the key \<^verbatim>\<open>G:\<close>.
\<close>

theorem shared_key_first_run_witness:
  "visits [(''G'', \<lparr>rows = [unnamed_row False, unnamed_row True], issues = 1\<rparr>)]
     = [] @ (''G'', unnamed_row False) # [] @ (''G'', unnamed_row True) # [] \<and>
   name (unnamed_row False) = name (unnamed_row True) \<and>
   map_of (flags (detect_visits [] (loop_start []))) (node_key ''G'' (unnamed_row False)) = None \<and>
   \<not> is_issue (unnamed_row False) \<and> is_issue (unnamed_row True) \<and>
   unnamed_row True \<in> set (alert_rows (down_now
      (detect [(''G'', \<lparr>rows = [unnamed_row False, unnamed_row True], issues = 1\<rparr>)] [])) ''G'') \<and>
   map_of (flags (detect [(''G'', \<lparr>rows = [unnamed_row False, unnamed_row True], issues = 1\<rparr>)] []))
      ''G:'' = Some True"
proof -
  have h1: "visits [(''G'', \<lparr>rows = [unnamed_row False, unnamed_row True], issues = 1\<rparr>)]
     = [] @ (''G'', unnamed_row False) # [] @ (''G'', unnamed_row True) # []"
    by (simp add: visits_def)
  have h2: "name (unnamed_row False) = name (unnamed_row True)" by simp
  have h3: "\<forall>(g', r') \<in> set []. node_key g' r' \<noteq> node_key ''G'' (unnamed_row False)" by simp
  have h4: "map_of (flags (detect_visits [] (loop_start [])))
      (node_key ''G'' (unnamed_row False)) = None"
    by (simp add: loop_start_def)
  have h5: "\<not> is_issue (unnamed_row False)" by simp
  have h6: "is_issue (unnamed_row True)" by simp
  show ?thesis
    using h1 h2 h4 h5 h6 shared_key_first_run [OF h1 h2 h3 h4 h5 h6]
    by (simp add: Let_def node_key_def)
qed

section \<open>Claims about the notification rules\<close>

text \<open>
  C3 (as amended). Over any number of runs on one calendar date, whatever their hours and
  results, at most one daily summary mail is sent and its log line is written at most
  once. The reminder is dispatched at most once more than the number of runs in which a
  node recovered, since each recovery clears the stored reminder date; as the results
  of a run are a dictionary, with each group once, no group gets more reminder mails
  than that. Without a recovery there is at most one dispatch and at most one reminder
  mail per group.
\<close>

theorem at_most_once_per_day:
  "summary_mails (snd (runs today ins st)) \<le> 1 \<and>
   summaries_sent (snd (runs today ins st)) \<le> 1 \<and>
   reminders_sent (snd (runs today ins st)) \<le> 1 + recovery_runs today ins st \<and>
   ((\<forall>i \<in> set ins. distinct (map fst (run_results i))) \<longrightarrow>
      reminder_mails_to g (snd (runs today ins st)) \<le> 1 + recovery_runs today ins st) \<and>
   (recovery_runs today ins st = 0 \<longrightarrow>
      reminders_sent (snd (runs today ins st)) \<le> 1 \<and>
      ((\<forall>i \<in> set ins. distinct (map fst (run_results i))) \<longrightarrow>
         reminder_mails_to g (snd (runs today ins st)) \<le> 1))"
proof -
  have a: "summary_mails (snd (runs today ins st)) \<le> 1"
    using summary_mails_runs [of today ins st] by (simp split: if_splits)
  have b: "summaries_sent (snd (runs today ins st)) \<le> 1"
    using summaries_runs [of today ins st] by (simp split: if_splits)
  have c: "reminders_sent (snd (runs today ins st)) \<le> 1 + recovery_runs today ins st"
    using reminders_runs [of today ins st]
    by (simp add: recoveries_are_recovery_runs split: if_splits)
  have d: "reminder_mails_to g (snd (runs today ins st)) \<le> 1 + recovery_runs today ins st"
    if "\<forall>i \<in> set ins. distinct (map fst (run_results i))"
    using reminder_mails_runs [OF that, of g today st] c by simp
  show ?thesis using a b c d by auto
qed

theorem at_most_once_per_day_witness:
  "summary_mails (snd (runs ''2024-01-15''
      [\<lparr>run_hour = DAILY_SUMMARY_HOUR, run_results = both_down, run_issues = 2\<rparr>,
       \<lparr>run_hour = DAILY_SUMMARY_HOUR, run_results = both_down, run_issues = 2\<rparr>]
      (both_known_down ''''))) = 1 \<and>
   reminder_mails_to ''NIS Servers'' (snd (runs ''2024-01-15''
      [\<lparr>run_hour = DAILY_REMINDER_HOUR, run_results = both_down, run_issues = 2\<rparr>,
       \<lparr>run_hour = DAILY_REMINDER_HOUR, run_results = one_back, run_issues = 1\<rparr>]
      (both_known_down ''''))) = 1 + 1 \<and>
   recovery_runs ''2024-01-15''
      [\<lparr>run_hour = DAILY_REMINDER_HOUR, run_results = both_down, run_issues = 2\<rparr>,
       \<lparr>run_hour = DAILY_REMINDER_HOUR, run_results = one_back, run_issues = 1\<rparr>]
      (both_known_down '''') = 1"
proof -
  have keys: "\<forall>i \<in> set
      [\<lparr>run_hour = DAILY_REMINDER_HOUR, run_results = both_down, run_issues = 2\<rparr>,
       \<lparr>run_hour = DAILY_REMINDER_HOUR, run_results = one_back, run_issues = 1\<rparr>].
      distinct (map fst (run_results i))"
    by simp
  show ?thesis
    using keys
      at_most_once_per_day [of "''2024-01-15''"
        "[\<lparr>run_hour = DAILY_SUMMARY_HOUR, run_results = both_down, run_issues = 2\<rparr>,
          \<lparr>run_hour = DAILY_SUMMARY_HOUR, run_results = both_down, run_issues = 2\<rparr>]"
        "both_known_down ''''" "''NIS Servers''"]
      at_most_once_per_day [of "''2024-01-15''"
        "[\<lparr>run_hour = DAILY_REMINDER_HOUR, run_results = both_down, run_issues = 2\<rparr>,
          \<lparr>run_hour = DAILY_REMINDER_HOUR, run_results = one_back, run_issues = 1\<rparr>]"
        "both_known_down ''''" "''NIS Servers''"]
    by (simp add: two_summary_runs two_reminder_runs two_reminder_runs_recoveries
        summary_mails_def reminder_mails_to_def del: runs.simps recovery_runs.simps)
qed

text \<open>
  C3 as stated fails for the reminder: two runs at the reminder hour of one date, both
  with issues outstanding, the second seeing one of two nodes recover, send two
  reminder mails to the group and log two reminders.
\<close>

theorem at_most_once_per_day_counterexample:
  "run_hour \<lparr>run_hour = DAILY_REMINDER_HOUR, run_results = both_down, run_issues = 2\<rparr>
     = DAILY_REMINDER_HOUR \<and>
   run_hour \<lparr>run_hour = DAILY_REMINDER_HOUR, run_results = one_back, run_issues = 1\<rparr>
     = DAILY_REMINDER_HOUR \<and>
   \<not> reminder_mails_to ''NIS Servers'' (snd (runs ''2024-01-15''
      [\<lparr>run_hour = DAILY_REMINDER_HOUR, run_results = both_down, run_issues = 2\<rparr>,
       \<lparr>run_hour = DAILY_REMINDER_HOUR, run_results = one_back, run_issues = 1\<rparr>]
      (both_known_down ''''))) \<le> 1 \<and>
   \<not> reminders_sent (snd (runs ''2024-01-15''
      [\<lparr>run_hour = DAILY_REMINDER_HOUR, run_results = both_down, run_issues = 2\<rparr>,
       \<lparr>run_hour = DAILY_REMINDER_HOUR, run_results = one_back, run_issues = 1\<rparr>]
      (both_known_down ''''))) \<le> 1"
  by (simp add: two_reminder_runs reminder_mails_to_def reminders_sent_def del: runs.simps)

text \<open>
  C4. Take a run of \<^verbatim>\<open>main\<close> on the results of \<^verbatim>\<open>run_checks_once\<close> whose \<^verbatim>\<open>recovered_now\<close>
  is not empty. The recovery rule stores the empty string as the reminder date, before
  the reminder rule reads it. So when issues remain and the hour is the reminder hour,
  the reminder is sent in that run, whatever the loaded reminder date was, today
  included: the run logs it, its reminder mails are those of \<^verbatim>\<open>send_group_alerts\<close> on
  \<^verbatim>\<open>issues_only\<close>, a reminder mail for a group with a positive issue count is among the
  run's mails, and the date becomes today. Otherwise the run sends no reminder mail and
  saves the empty string as the reminder date.
\<close>

theorem recovery_rearms_reminder:
  assumes "run_checks_once cfg = (res, n, logs)"
    and "recovered_now (detect res (node_state st)) \<noteq> []"
  shows "last_daily_reminder
           (fst (recovery_alert (recovered_now (detect res (node_state st)))
                   (st\<lparr>node_state := flags (detect res (node_state st))\<rparr>))) = '''' \<and>
         (let out = main st hour d cfg
          in if n > 0 \<and> hour = DAILY_REMINDER_HOUR
             then Log DailyReminderSent \<in> set (snd out) \<and>
                  filter is_reminder_mail (snd out)
                    = send_group_alerts ISSUE_NOT_RESOLVED (issues_only res) \<and>
                  (\<exists>g dt rcpt. (g, dt) \<in> set res \<and> 0 < issues dt \<and>
                     map_of GROUP_EMAIL_MAP g = Some rcpt \<and>
                     Email (GroupSubject ISSUE_NOT_RESOLVED g)
                       (build_report_html
                          [(g, \<lparr>rows = filter is_issue (rows dt), issues = issues dt\<rparr>)]
                          (issues dt))
                       (Some rcpt) \<in> set (snd out)) \<and>
                  last_daily_reminder (fst out) = isoformat d
             else filter is_reminder_mail (snd out) = [] \<and>
                  Log DailyReminderSent \<notin> set (snd out) \<and>
                  last_daily_reminder (fst out) = '''')"
proof -
  define out where "out = main st hour d cfg"
  define inner where "inner = main_after_checks st hour (isoformat d) res n"
  note ev = main_reminder_events [OF assms(1), of st hour d, folded out_def inner_def]
  have reset: "last_daily_reminder
           (fst (recovery_alert (recovered_now (detect res (node_state st)))
                   (st\<lparr>node_state := flags (detect res (node_state st))\<rparr>))) = ''''"
    using assms(2) by simp
  have nonempty: "isoformat d \<noteq> ''''" by (rule isoformat_not_empty)
  show ?thesis
  proof (cases "n > 0 \<and> hour = DAILY_REMINDER_HOUR")
    case True
    have logged: "Log DailyReminderSent \<in> set (snd inner)"
      using True assms(2) nonempty by (simp add: inner_def reminder_logged_one_run Let_def)
    have mails: "filter is_reminder_mail (snd inner)
        = send_group_alerts ISSUE_NOT_RESOLVED (issues_only res)"
      using True assms(2) nonempty by (simp add: inner_def reminder_mails_one_run Let_def)
    have date: "last_daily_reminder (fst inner) = isoformat d"
      using True assms(2) nonempty by (simp add: inner_def reminder_state Let_def)
    from reminder_mail_exists [OF assms(1)] True obtain g dt rcpt where
      mem: "(g, dt) \<in> set res" "0 < issues dt" "map_of GROUP_EMAIL_MAP g = Some rcpt" and
      mail: "Email (GroupSubject ISSUE_NOT_RESOLVED g)
             (build_report_html [(g, \<lparr>rows = filter is_issue (rows dt), issues = issues dt\<rparr>)]
                (issues dt))
             (Some rcpt) \<in> set (send_group_alerts ISSUE_NOT_RESOLVED (issues_only res))"
      by blast
    have "set (filter is_reminder_mail (snd inner)) \<subseteq> set (snd inner)" by auto
    with mail mails ev(4) have sent: "Email (GroupSubject ISSUE_NOT_RESOLVED g)
             (build_report_html [(g, \<lparr>rows = filter is_issue (rows dt), issues = issues dt\<rparr>)]
                (issues dt))
             (Some rcpt) \<in> set (snd out)"
      by auto
    show ?thesis
      unfolding Let_def out_def [symmetric]
      using True reset logged mails date mem sent ev(1,2,3) by auto
  next
    case False
    have logged: "Log DailyReminderSent \<notin> set (snd inner)"
      using False by (auto simp: inner_def reminder_logged_one_run Let_def)
    have mails: "filter is_reminder_mail (snd inner) = []"
      using False by (auto simp: inner_def reminder_mails_one_run Let_def)
    have date: "last_daily_reminder (fst inner) = ''''"
      using False assms(2) by (auto simp: inner_def reminder_state Let_def)
    show ?thesis
      unfolding Let_def out_def [symmetric]
      using False reset logged mails date ev(1,2,3) by auto
  qed
qed

theorem recovery_rearms_reminder_witness:
  "run_checks_once nis_only =
     (one_back, 1,
      [Log (ErrorLoading ''config/cluster_nodes.json''),
       Log (ErrorLoading ''config/dgx_nodes.json''),
       Log (ErrorLoading ''config/license_servers.json''),
       Log (Loaded 2 ''NIS Servers'')]) \<and>
   recovered_now (detect one_back
      (node_state (both_known_down (isoformat \<lparr>year = 2024, month = 3, day = 15\<rparr>)))) \<noteq> [] \<and>
   last_daily_reminder (both_known_down (isoformat \<lparr>year = 2024, month = 3, day = 15\<rparr>))
     = isoformat \<lparr>year = 2024, month = 3, day = 15\<rparr> \<and>
   Email (GroupSubject ISSUE_NOT_RESOLVED ''NIS Servers'')
     (build_report_html [(''NIS Servers'', \<lparr>rows = [probe_row ''n2'' True], issues = 1\<rparr>)] 1)
     (Some [''dhyann@iisc.ac.in'', ''shivaprasadl@iisc.ac.in'', ''manjulap@iisc.ac.in''])
     \<in> set (snd (main (both_known_down (isoformat \<lparr>year = 2024, month = 3, day = 15\<rparr>))
                  DAILY_REMINDER_HOUR \<lparr>year = 2024, month = 3, day = 15\<rparr> nis_only)) \<and>
   Log DailyReminderSent
     \<in> set (snd (main (both_known_down (isoformat \<lparr>year = 2024, month = 3, day = 15\<rparr>))
                  DAILY_REMINDER_HOUR \<lparr>year = 2024, month = 3, day = 15\<rparr> nis_only)) \<and>
   last_daily_reminder
     (fst (main (both_known_down (isoformat \<lparr>year = 2024, month = 3, day = 15\<rparr>))
             DAILY_REMINDER_HOUR \<lparr>year = 2024, month = 3, day = 15\<rparr> nis_only))
     = ''2024-03-15''"
proof -
  have h1: "run_checks_once nis_only =
     (one_back, 1,
      [Log (ErrorLoading ''config/cluster_nodes.json''),
       Log (ErrorLoading ''config/dgx_nodes.json''),
       Log (ErrorLoading ''config/license_servers.json''),
       Log (Loaded 2 ''NIS Servers'')])"
    by (rule run_nis_only)
  have h2: "recovered_now (detect one_back
      (node_state (both_known_down (isoformat \<lparr>year = 2024, month = 3, day = 15\<rparr>)))) \<noteq> []"
    by (simp add: both_known_down_def detect_one_back)
  have h3: "last_daily_reminder (both_known_down (isoformat \<lparr>year = 2024, month = 3, day = 15\<rparr>))
     = isoformat \<lparr>year = 2024, month = 3, day = 15\<rparr>"
    by (simp add: both_known_down_def)
  have rows: "filter is_issue [probe_row ''n1'' False, probe_row ''n2'' True]
      = [probe_row ''n2'' True]"
    by simp
  from recovery_rearms_reminder [OF h1 h2, of DAILY_REMINDER_HOUR
      "\<lparr>year = 2024, month = 3, day = 15\<rparr>"]
  have concl: "Log DailyReminderSent
       \<in> set (snd (main (both_known_down (isoformat \<lparr>year = 2024, month = 3, day = 15\<rparr>))
                  DAILY_REMINDER_HOUR \<lparr>year = 2024, month = 3, day = 15\<rparr> nis_only)) \<and>
     (\<exists>g dt rcpt. (g, dt) \<in> set one_back \<and> 0 < issues dt \<and>
        map_of GROUP_EMAIL_MAP g = Some rcpt \<and>
        Email (GroupSubject ISSUE_NOT_RESOLVED g)
          (build_report_html [(g, \<lparr>rows = filter is_issue (rows dt), issues = issues dt\<rparr>)]
             (issues dt))
          (Some rcpt)
          \<in> set (snd (main (both_known_down (isoformat \<lparr>year = 2024, month = 3, day = 15\<rparr>))
                     DAILY_REMINDER_HOUR \<lparr>year = 2024, month = 3, day = 15\<rparr> nis_only))) \<and>
     last_daily_reminder
       (fst (main (both_known_down (isoformat \<lparr>year = 2024, month = 3, day = 15\<rparr>))
               DAILY_REMINDER_HOUR \<lparr>year = 2024, month = 3, day = 15\<rparr> nis_only))
       = isoformat \<lparr>year = 2024, month = 3, day = 15\<rparr>"
    by (simp add: Let_def)
  then obtain g dt rcpt where
    mem: "(g, dt) \<in> set one_back" and rc: "map_of GROUP_EMAIL_MAP g = Some rcpt" and
    mail: "Email (GroupSubject ISSUE_NOT_RESOLVED g)
          (build_report_html [(g, \<lparr>rows = filter is_issue (rows dt), issues = issues dt\<rparr>)]
             (issues dt))
          (Some rcpt)
          \<in> set (snd (main (both_known_down (isoformat \<lparr>year = 2024, month = 3, day = 15\<rparr>))
                     DAILY_REMINDER_HOUR \<lparr>year = 2024, month = 3, day = 15\<rparr> nis_only))"
    by blast
  from mem have g: "g = ''NIS Servers''"
    and dt: "dt = \<lparr>rows = [probe_row ''n1'' False, probe_row ''n2'' True], issues = 1\<rparr>"
    by (simp_all add: one_back_def)
  from rc g have rcpt: "rcpt = [''dhyann@iisc.ac.in'', ''shivaprasadl@iisc.ac.in'', ''manjulap@iisc.ac.in'']"
    by (simp add: nis_recipients)
  show ?thesis
    using h1 h2 h3 concl mail by (simp add: g dt rcpt isoformat_sample)
qed

text \<open>
  C5. The reminder is sent if and only if the issue total is positive, the hour is the
  reminder hour and the reminder date in the state when the rule is reached (the empty
  string after a recovery in this run, the loaded date otherwise) differs from today.
  When it is sent the date becomes today, and the mails are those of
  \<^verbatim>\<open>send_group_alerts\<close> on \<^verbatim>\<open>issues_only\<close>, which holds exactly the groups with a
  positive issue count, in order, each cut down to its rows with the issue flag: every
  reminder mail is for such a group, and every such group that has a flagged row and
  recipients gets its mail.
\<close>

theorem daily_reminder_rule:
  "let stored = (if recovered_now (detect results (node_state st)) \<noteq> [] then ''''
                 else last_daily_reminder st);
       due = (overall_issues > 0 \<and> hour = DAILY_REMINDER_HOUR \<and> stored \<noteq> today);
       out = main_after_checks st hour today results overall_issues;
       payload = issues_only results
   in (Log DailyReminderSent \<in> set (snd out) \<longleftrightarrow> due) \<and>
      filter is_reminder_mail (snd out)
        = (if due then send_group_alerts ISSUE_NOT_RESOLVED payload else []) \<and>
      last_daily_reminder (fst out) = (if due then today else stored) \<and>
      map fst payload = map fst (filter (\<lambda>(g, d). issues d > 0) results) \<and>
      set payload = (\<lambda>(g, d). (g, \<lparr>rows = filter is_issue (rows d), issues = issues d\<rparr>))
                      ` {(g, d) \<in> set results. issues d > 0} \<and>
      (\<forall>e \<in> set (send_group_alerts ISSUE_NOT_RESOLVED payload).
         \<exists>g d rcpt. (g, d) \<in> set results \<and> issues d > 0 \<and>
           e = Email (GroupSubject ISSUE_NOT_RESOLVED g)
                 (build_report_html [(g, \<lparr>rows = filter is_issue (rows d), issues = issues d\<rparr>)]
                    (issues d))
                 (Some rcpt)) \<and>
      (\<forall>(g, d) \<in> set results. \<forall>rcpt.
         issues d > 0 \<and> filter is_issue (rows d) \<noteq> [] \<and>
         map_of GROUP_EMAIL_MAP g = Some rcpt \<and> rcpt \<noteq> [] \<longrightarrow>
           Email (GroupSubject ISSUE_NOT_RESOLVED g)
             (build_report_html [(g, \<lparr>rows = filter is_issue (rows d), issues = issues d\<rparr>)]
                (issues d))
             (Some rcpt) \<in> set (send_group_alerts ISSUE_NOT_RESOLVED payload))"
proof -
  define payload where "payload = issues_only results"
  have mails: "\<exists>g d rcpt. (g, d) \<in> set results \<and> issues d > 0 \<and>
           e = Email (GroupSubject ISSUE_NOT_RESOLVED g)
                 (build_report_html [(g, \<lparr>rows = filter is_issue (rows d), issues = issues d\<rparr>)]
                    (issues d))
                 (Some rcpt)"
    if "e \<in> set (send_group_alerts ISSUE_NOT_RESOLVED payload)" for e
  proof -
    from send_group_alerts_mail [OF that] obtain g d' rcpt where
      mem: "(g, d') \<in> set payload" and
      e: "e = Email (GroupSubject ISSUE_NOT_RESOLVED g) (build_report_html [(g, d')] (issues d'))
               (Some rcpt)"
      by blast
    from mem obtain d where "(g, d) \<in> set results" "issues d > 0"
      "d' = \<lparr>rows = filter is_issue (rows d), issues = issues d\<rparr>"
      unfolding payload_def set_issues_only by auto
    with e show ?thesis by auto
  qed
  have complete: "Email (GroupSubject ISSUE_NOT_RESOLVED g)
             (build_report_html [(g, \<lparr>rows = filter is_issue (rows d), issues = issues d\<rparr>)]
                (issues d))
             (Some rcpt) \<in> set (send_group_alerts ISSUE_NOT_RESOLVED payload)"
    if "(g, d) \<in> set results" "issues d > 0" "filter is_issue (rows d) \<noteq> []"
      "map_of GROUP_EMAIL_MAP g = Some rcpt" "rcpt \<noteq> []" for g d rcpt
  proof -
    have "(g, \<lparr>rows = filter is_issue (rows d), issues = issues d\<rparr>) \<in> set payload"
      unfolding payload_def set_issues_only using that(1,2) by force
    from send_group_alerts_complete [OF this _ that(4,5), of ISSUE_NOT_RESOLVED]
    show ?thesis using that(3) by simp
  qed
  show ?thesis
    unfolding Let_def payload_def [symmetric]
    using mails complete
    by (auto simp: reminder_logged_one_run reminder_mails_one_run reminder_state Let_def
        payload_def set_issues_only keys_issues_only)
qed

theorem daily_reminder_rule_witness:
  "(''NIS Servers'', \<lparr>rows = [probe_row ''n1'' True, probe_row ''n2'' True], issues = 2\<rparr>)
     \<in> set both_down \<and>
   0 < issues \<lparr>rows = [probe_row ''n1'' True, probe_row ''n2'' True], issues = 2\<rparr> \<and>
   filter is_issue (rows \<lparr>rows = [probe_row ''n1'' True, probe_row ''n2'' True], issues = 2\<rparr>)
     \<noteq> [] \<and>
   map_of GROUP_EMAIL_MAP ''NIS Servers''
     = Some [''dhyann@iisc.ac.in'', ''shivaprasadl@iisc.ac.in'', ''manjulap@iisc.ac.in''] \<and>
   Log DailyReminderSent \<in> set (snd (main_after_checks (both_known_down '''')
      DAILY_REMINDER_HOUR ''2024-01-15'' both_down 2)) \<and>
   filter is_reminder_mail (snd (main_after_checks (both_known_down '''')
      DAILY_REMINDER_HOUR ''2024-01-15'' both_down 2))
     = send_group_alerts ISSUE_NOT_RESOLVED (issues_only both_down) \<and>
   Email (GroupSubject ISSUE_NOT_RESOLVED ''NIS Servers'')
     (build_report_html
        [(''NIS Servers'', \<lparr>rows = [probe_row ''n1'' True, probe_row ''n2'' True], issues = 2\<rparr>)] 2)
     (Some [''dhyann@iisc.ac.in'', ''shivaprasadl@iisc.ac.in'', ''manjulap@iisc.ac.in''])
     \<in> set (send_group_alerts ISSUE_NOT_RESOLVED (issues_only both_down)) \<and>
   last_daily_reminder (fst (main_after_checks (both_known_down '''')
      DAILY_REMINDER_HOUR ''2024-01-15'' both_down 2)) = ''2024-01-15''"
proof -
  have h1: "(''NIS Servers'', \<lparr>rows = [probe_row ''n1'' True, probe_row ''n2'' True], issues = 2\<rparr>)
     \<in> set both_down"
    by (simp add: both_down_def)
  have h2: "map_of GROUP_EMAIL_MAP ''NIS Servers''
     = Some [''dhyann@iisc.ac.in'', ''shivaprasadl@iisc.ac.in'', ''manjulap@iisc.ac.in'']"
    by (simp add: GROUP_EMAIL_MAP_def)
  have h3: "recovered_now (detect both_down (node_state (both_known_down ''''))) = []"
    by (simp add: both_known_down_def detect_both_down)
  have h4: "last_daily_reminder (both_known_down '''') = ''''"
    by (simp add: both_known_down_def)
  show ?thesis
    using h1 h2 daily_reminder_rule [of both_down "both_known_down ''''" 2 DAILY_REMINDER_HOUR
        "''2024-01-15''"]
    unfolding Let_def h3 h4
    by (auto simp: both_down_def)
qed

section \<open>Claims about the state file\<close>

text \<open>
  C8 (as amended). When the state file is missing, cannot be read or does not parse, and
  the file can be written, \<^verbatim>\<open>load_state\<close> returns the default state (an empty node map
  and two empty date strings) and the file then holds the dump of that default; when
  the write fails, \<^verbatim>\<open>load_state\<close> raises the write's error. When the file parses to an
  object, \<^verbatim>\<open>load_state\<close> returns it with its own fields, each missing top-level key
  filled in with its default value, and leaves the disk as it is. A parsed value that is
  not an object is treated like a file that does not parse.
\<close>

theorem load_state_defaults:
  "(stored dk = Missing \<or> stored dk = Unreadable \<or>
    (\<exists>text. stored dk = Contents text \<and> loads text = None)
      \<longrightarrow> load_state loads dumps dk =
            (if writable dk
             then Inr (default_state, dk\<lparr>stored := Contents (dumps (JObj default_state))\<rparr>)
             else Inl WriteFailed)) \<and>
   (stored dk = Contents text \<and> loads text = Some j \<longrightarrow>
      (case j of
         JObj data \<Rightarrow>
           (\<exists>st. load_state loads dumps dk = Inr (st, dk) \<and>
              (\<forall>k. map_of st k =
                 (case map_of data k of Some v \<Rightarrow> Some v | None \<Rightarrow> map_of default_state k)) \<and>
              (\<forall>k \<in> {''node_state'', ''last_daily_summary'', ''last_daily_reminder''}.
                 map_of data k = None \<longrightarrow> map_of st k = map_of default_state k))
       | _ \<Rightarrow>
           load_state loads dumps dk =
             (if writable dk
              then Inr (default_state, dk\<lparr>stored := Contents (dumps (JObj default_state))\<rparr>)
              else Inl WriteFailed))) \<and>
   map_of default_state ''node_state'' = Some (JObj []) \<and>
   map_of default_state ''last_daily_summary'' = Some (JStr '''') \<and>
   map_of default_state ''last_daily_reminder'' = Some (JStr '''')"
proof (intro conjI impI)
  assume "stored dk = Missing \<or> stored dk = Unreadable \<or>
    (\<exists>text. stored dk = Contents text \<and> loads text = None)"
  then show "load_state loads dumps dk =
            (if writable dk
             then Inr (default_state, dk\<lparr>stored := Contents (dumps (JObj default_state))\<rparr>)
             else Inl WriteFailed)"
    by (intro load_state_fallback) blast
next
  assume h: "stored dk = Contents text \<and> loads text = Some j"
  show "case j of
         JObj data \<Rightarrow>
           (\<exists>st. load_state loads dumps dk = Inr (st, dk) \<and>
              (\<forall>k. map_of st k =
                 (case map_of data k of Some v \<Rightarrow> Some v | None \<Rightarrow> map_of default_state k)) \<and>
              (\<forall>k \<in> {''node_state'', ''last_daily_summary'', ''last_daily_reminder''}.
                 map_of data k = None \<longrightarrow> map_of st k = map_of default_state k))
       | _ \<Rightarrow>
           load_state loads dumps dk =
             (if writable dk
              then Inr (default_state, dk\<lparr>stored := Contents (dumps (JObj default_state))\<rparr>)
              else Inl WriteFailed)"
  proof (cases "\<exists>data. j = JObj data")
    case True
    then obtain data where j: "j = JObj data" by blast
    show ?thesis
      using h by (simp add: j load_state_object map_of_backfill)
  next
    case False
    then have "load_state loads dumps dk =
             (if writable dk
              then Inr (default_state, dk\<lparr>stored := Contents (dumps (JObj default_state))\<rparr>)
              else Inl WriteFailed)"
      using h by (intro load_state_fallback) blast
    then show ?thesis using False by (cases j) simp_all
  qed
qed (simp_all add: default_state_def)

theorem load_state_defaults_witness:
  "load_state
     (\<lambda>s. if s = ''partial'' then Some (JObj [(''last_daily_summary'', JStr ''2024-03-15'')])
          else None)
     (\<lambda>j. if j = JObj default_state then ''default'' else ''other'')
     \<lparr>stored = Missing, writable = True\<rparr>
     = Inr (default_state, \<lparr>stored = Contents ''default'', writable = True\<rparr>) \<and>
   load_state
     (\<lambda>s. if s = ''partial'' then Some (JObj [(''last_daily_summary'', JStr ''2024-03-15'')])
          else None)
     (\<lambda>j. if j = JObj default_state then ''default'' else ''other'')
     \<lparr>stored = Contents ''broken'', writable = True\<rparr>
     = Inr (default_state, \<lparr>stored = Contents ''default'', writable = True\<rparr>) \<and>
   load_state
     (\<lambda>s. if s = ''partial'' then Some (JObj [(''last_daily_summary'', JStr ''2024-03-15'')])
          else None)
     (\<lambda>j. if j = JObj default_state then ''default'' else ''other'')
     \<lparr>stored = Contents ''partial'', writable = True\<rparr>
     = Inr ([(''last_daily_summary'', JStr ''2024-03-15''), (''node_state'', JObj []),
             (''last_daily_reminder'', JStr '''')],
            \<lparr>stored = Contents ''partial'', writable = True\<rparr>)"
  using load_state_defaults [of "\<lparr>stored = Missing, writable = True\<rparr>"
      "\<lambda>s. if s = ''partial'' then Some (JObj [(''last_daily_summary'', JStr ''2024-03-15'')])
           else None"
      "\<lambda>j. if j = JObj default_state then ''default'' else ''other''" "''none''" JNull]
    load_state_defaults [of "\<lparr>stored = Contents ''broken'', writable = True\<rparr>"
      "\<lambda>s. if s = ''partial'' then Some (JObj [(''last_daily_summary'', JStr ''2024-03-15'')])
           else None"
      "\<lambda>j. if j = JObj default_state then ''default'' else ''other''" "''broken''" JNull]
    load_state_defaults [of "\<lparr>stored = Contents ''partial'', writable = True\<rparr>"
      "\<lambda>s. if s = ''partial'' then Some (JObj [(''last_daily_summary'', JStr ''2024-03-15'')])
           else None"
      "\<lambda>j. if j = JObj default_state then ''default'' else ''other''" "''partial''"
      "JObj [(''last_daily_summary'', JStr ''2024-03-15'')]"]
  by (simp add: load_state_def Let_def setdefault_def default_state_def)

text \<open>
  C8 as stated fails where the default cannot be written: for a file whose text does not
  parse and that is not writable, \<^verbatim>\<open>load_state\<close> raises instead of returning the default.
\<close>

theorem load_state_defaults_counterexample:
  "(\<lambda>s. if s = ''partial'' then Some (JObj [(''last_daily_summary'', JStr ''2024-03-15'')])
        else None) ''broken'' = None \<and>
   load_state
     (\<lambda>s. if s = ''partial'' then Some (JObj [(''last_daily_summary'', JStr ''2024-03-15'')])
          else None)
     (\<lambda>j. if j = JObj default_state then ''default'' else ''other'')
     \<lparr>stored = Contents ''broken'', writable = False\<rparr>
     = Inl WriteFailed"
  by (simp add: load_state_def save_state_def Let_def)

end
